theory Spec2Isabelle
  imports Main "HOL-Library.Multiset"
begin

section \<open>JavaScript values, errors and objects\<close>

text \<open>
  The values that travel through \<^verbatim>\<open>sdk/api.js\<close> and the Dfyn adapter: JSON data
  returned by the remote service.  Objects are association lists with unique keys.
\<close>

datatype jsv =
    Undef
  | Null
  | Num int
  | Str string
  | Arr "jsv list"
  | Obj "(string \<times> jsv) list"

text \<open>JavaScript truthiness, as tested by \<^verbatim>\<open>if (v)\<close>, \<^verbatim>\<open>v || {}\<close> and \<^verbatim>\<open>filter(t => t)\<close>.\<close>

fun truthy :: "jsv \<Rightarrow> bool" where
  "truthy Undef = False"
| "truthy Null = False"
| "truthy (Num n) = (n \<noteq> 0)"
| "truthy (Str s) = (s \<noteq> [])"
| "truthy (Arr xs) = True"
| "truthy (Obj kvs) = True"

text \<open>
  An error object.  The fields \<^verbatim>\<open>response\<close>, \<^verbatim>\<open>config\<close> and \<^verbatim>\<open>request\<close> are the
  ones an axios failure carries; an absent field is \<open>None\<close>.
\<close>

record js_error =
  name :: string
  message :: string
  response :: "(string \<times> string) list option"
  config :: "(string \<times> string) list option"
  request :: "string option"

definition Error :: "string \<Rightarrow> js_error" where
  "Error msg = \<lparr>name = ''Error'', message = msg, response = None, config = None, request = None\<rparr>"

definition TypeError :: "string \<Rightarrow> js_error" where
  "TypeError msg = \<lparr>name = ''TypeError'', message = msg, response = None, config = None, request = None\<rparr>"

definition RangeError :: "string \<Rightarrow> js_error" where
  "RangeError msg = \<lparr>name = ''RangeError'', message = msg, response = None, config = None, request = None\<rparr>"

definition AssertionError :: "string \<Rightarrow> js_error" where
  "AssertionError msg = \<lparr>name = ''AssertionError'', message = msg, response = None, config = None, request = None\<rparr>"

text \<open>
  underscore's \<^verbatim>\<open>_.pick(obj, keys)\<close>: for each listed key that the object has, in the
  order of the list, copy the entry.  \<^verbatim>\<open>_.pick(undefined, keys)\<close> is the empty object.
\<close>

definition pick :: "(string \<times> 'v) list \<Rightarrow> string list \<Rightarrow> (string \<times> 'v) list" where
  "pick obj keys = List.map_filter (\<lambda>k. map_option (Pair k) (map_of obj k)) keys"

text \<open>\<^verbatim>\<open>maybePreSerializeAxiosError\<close> (api.js, lines 26 to 42).\<close>

definition maybePreSerializeAxiosError :: "js_error \<Rightarrow> js_error" where
  "maybePreSerializeAxiosError error =
     (case response error of
        None \<Rightarrow> error
      | Some r \<Rightarrow>
          error\<lparr>response := Some (pick r [''status'', ''statusText'', ''data'']),
                config := Some (pick (case config error of None \<Rightarrow> [] | Some c \<Rightarrow> c)
                                  [''method'', ''url'', ''data'']),
                request := None\<rparr>)"

text \<open>Assignment \<^verbatim>\<open>obj[key] = v\<close>: an existing key keeps its position, a new key is appended.\<close>

fun obj_set :: "(string \<times> 'v) list \<Rightarrow> string \<Rightarrow> 'v \<Rightarrow> (string \<times> 'v) list" where
  "obj_set [] k v = [(k, v)]"
| "obj_set ((k', v') # kvs) k v = (if k' = k then (k, v) # kvs else (k', v') # obj_set kvs k v)"

section \<open>Chunking\<close>

text \<open>\<^verbatim>\<open>Array.prototype.slice(i, j)\<close> for \<open>0 \<le> i \<le> j\<close>.\<close>

definition slice :: "'a list \<Rightarrow> nat \<Rightarrow> nat \<Rightarrow> 'a list" where
  "slice array i j = take (j - i) (drop i array)"

text \<open>
  underscore's \<^verbatim>\<open>_.chunk(array, count)\<close>:
  \<^verbatim>\<open>if (count == null || count < 1) return [];
  while (i < length) result.push(slice.call(array, i, i += count));\<close>
  The loop runs only with \<open>count \<ge> 1\<close>; the test on \<open>cnt = 0\<close> in \<open>chunk_loop\<close> stands
  for the early return that precedes it.
\<close>

function chunk_loop :: "'a list \<Rightarrow> nat \<Rightarrow> nat \<Rightarrow> 'a list list" where
  "chunk_loop array cnt i =
     (if cnt = 0 then []
      else if i < length array then slice array i (i + cnt) # chunk_loop array cnt (i + cnt)
      else [])"
  by pat_completeness auto
termination
  by (relation "measure (\<lambda>(array, cnt, i). length array - i)") auto

declare chunk_loop.simps [simp del]

definition us_chunk :: "'a list \<Rightarrow> int \<Rightarrow> 'a list list" where
  "us_chunk array cnt = (if cnt < 1 then [] else chunk_loop array (nat cnt) 0)"

section \<open>The batch call: \<^verbatim>\<open>POST\<close> of sdk/api.js\<close>

text \<open>
  \<^verbatim>\<open>options.chunk\<close>: which list-valued option is split, the largest chunk, and how chunk
  results are combined (\<^verbatim>\<open>'array'\<close> or \<^verbatim>\<open>'balances'\<close>).
\<close>

record chunk_cfg =
  param :: string
  chunk_length :: int
  combine :: string

text \<open>
  The options object: its list-valued entries by key (\<^verbatim>\<open>calls\<close>, \<^verbatim>\<open>targets\<close>), the
  chunk configuration when present, and every other entry (abi, block, chain, target) as
  an opaque payload.
\<close>

record ('d, 'p) options =
  lists :: "(string \<times> 'd list) list"
  chunk :: "chunk_cfg option"
  rest :: 'p

text \<open>What the remote service answers (\<^verbatim>\<open>response.data\<close>); a missing count is \<open>None\<close>.\<close>

record call_result =
  ethCallCount :: "int option"
  output' :: jsv

type_synonym ('d, 'p) request = "string \<times> ('d, 'p) options option"

text \<open>
  The surroundings of \<^verbatim>\<open>POST\<close>: the network round trip \<^verbatim>\<open>axios.post(url, options)\<close>, the
  order in which the limiter's jobs complete (for \<open>n\<close> scheduled chunks, the list of
  chunk indices in completion order, a permutation of \<open>[0..<n]\<close>), and
  \<^verbatim>\<open>utility.sum\<close> of \<^verbatim>\<open>sdk/util\<close>.  The progress bar, which only prints, is left out.
\<close>

record ('d, 'p) env =
  net :: "('d, 'p) request \<Rightarrow> js_error + call_result"
  completion :: "nat \<Rightarrow> nat list"
  util_sum :: "jsv list \<Rightarrow> js_error + jsv"

text \<open>The three variables that \<^verbatim>\<open>processRequest\<close> closes over.\<close>

record acc =
  acc_ethCallCount :: int
  acc_output :: "jsv list"
  complete :: nat

text \<open>The spread \<^verbatim>\<open>...call.output\<close> inside an array literal: the elements of an iterable.\<close>

fun spread :: "jsv \<Rightarrow> js_error + jsv list" where
  "spread (Arr ys) = Inr ys"
| "spread (Str s) = Inr (map (\<lambda>c. Str [c]) s)"
| "spread v = Inl (TypeError ''call.output is not iterable'')"

text \<open>
  The part of \<^verbatim>\<open>processRequest\<close> that follows \<^verbatim>\<open>await POST(endpoint, opts)\<close>
  (api.js, lines 90 to 107).
\<close>

definition processRequest :: "string \<Rightarrow> acc \<Rightarrow> call_result \<Rightarrow> js_error + acc" where
  "processRequest comb st call =
     (let st = st\<lparr>complete := complete st + 1\<rparr> in
      case ethCallCount call of
        None \<Rightarrow> Inr st
      | Some n \<Rightarrow>
          if n = 0 then Inr st
          else
            (let st = st\<lparr>acc_ethCallCount := acc_ethCallCount st + n\<rparr> in
             if comb = ''array'' then
               (case spread (output' call) of
                  Inl e \<Rightarrow> Inl e
                | Inr ys \<Rightarrow> Inr (st\<lparr>acc_output := acc_output st @ ys\<rparr>))
             else if comb = ''balances'' then Inr (st\<lparr>acc_output := acc_output st @ [output' call]\<rparr>)
             else Inr st))"

text \<open>
  \<^verbatim>\<open>Promise.all\<close> over the scheduled jobs.  Each job is one recursive \<^verbatim>\<open>POST\<close> (its
  requests and its outcome are in \<open>calls\<close>, by chunk index) followed by the update of
  the shared variables; the jobs complete in the order \<open>ord\<close>.  The first job that
  rejects rejects the whole, and what the jobs still running do afterwards is not
  observed.  An index that names no chunk names no job.
\<close>

fun run_jobs ::
  "string \<Rightarrow> ('r list \<times> (js_error + call_result)) list \<Rightarrow> nat list \<Rightarrow> 'r list \<times> acc
     \<Rightarrow> 'r list \<times> (js_error + acc)" where
  "run_jobs comb calls [] (log, st) = (log, Inr st)"
| "run_jobs comb calls (i # ord) (log, st) =
     (if i < length calls then
        (case calls ! i of
           (reqs, Inl e) \<Rightarrow> (log @ reqs, Inl e)
         | (reqs, Inr call) \<Rightarrow>
             (case processRequest comb st call of
                Inl e \<Rightarrow> (log @ reqs, Inl e)
              | Inr st' \<Rightarrow> run_jobs comb calls ord (log @ reqs, st')))
      else run_jobs comb calls ord (log, st))"

text \<open>
  The test of line 68:
  \<^verbatim>\<open>options && options.chunk && options[options.chunk.param].length > options.chunk.length\<close>.
  Reading \<^verbatim>\<open>length\<close> of an absent entry throws.
\<close>

definition chunk_test ::
  "('d, 'p) options option \<Rightarrow> js_error + (('d, 'p) options \<times> chunk_cfg \<times> 'd list) option" where
  "chunk_test options =
     (case options of
        None \<Rightarrow> Inr None
      | Some opts \<Rightarrow>
          (case chunk opts of
             None \<Rightarrow> Inr None
           | Some c \<Rightarrow>
               (case map_of (lists opts) (param c) of
                  None \<Rightarrow> Inl (TypeError ''Cannot read property length of undefined'')
                | Some xs \<Rightarrow>
                    if int (length xs) > chunk_length c then Inr (Some (opts, c, xs))
                    else Inr None)))"

text \<open>The list that line 68 measures; the recursion of \<^verbatim>\<open>POST\<close> descends on its length.\<close>

definition chunked_list :: "('d, 'p) options option \<Rightarrow> 'd list" where
  "chunked_list options =
     (case options of
        None \<Rightarrow> []
      | Some opts \<Rightarrow>
          (case chunk opts of
             None \<Rightarrow> []
           | Some c \<Rightarrow> (case map_of (lists opts) (param c) of None \<Rightarrow> [] | Some xs \<Rightarrow> xs)))"

text \<open>\<^verbatim>\<open>opts = {...options}; opts[options.chunk.param] = chunk\<close> (lines 83 to 86).\<close>

definition chunk_opts :: "('d, 'p) options \<Rightarrow> chunk_cfg \<Rightarrow> 'd list \<Rightarrow> ('d, 'p) options option" where
  "chunk_opts opts c ch = Some (opts\<lparr>lists := obj_set (lists opts) (param c) ch\<rparr>)"

text \<open>The value returned at lines 124 to 132.\<close>

definition combined :: "('d, 'p) env \<Rightarrow> string \<Rightarrow> acc \<Rightarrow> js_error + call_result" where
  "combined env comb st =
     (if comb = ''balances'' then
        (case util_sum env (acc_output st) of
           Inl e \<Rightarrow> Inl e
         | Inr v \<Rightarrow> Inr \<lparr>ethCallCount = Some (acc_ethCallCount st), output' = v\<rparr>)
      else Inr \<lparr>ethCallCount = Some (acc_ethCallCount st), output' = Arr (acc_output st)\<rparr>)"

definition acc0 :: acc where
  "acc0 = \<lparr>acc_ethCallCount = 0, acc_output = [], complete = 0\<rparr>"

lemma slice_length: "length (slice array i j) \<le> j - i"
  by (simp add: slice_def)

lemma chunk_loop_bound: "c \<in> set (chunk_loop array cnt i) \<Longrightarrow> length c \<le> cnt"
proof (induction array cnt i rule: chunk_loop.induct)
  case (1 array cnt i)
  show ?case
  proof (cases "cnt = 0 \<or> \<not> i < length array")
    case True
    then have "chunk_loop array cnt i = []"
      by (subst chunk_loop.simps) auto
    with "1.prems" show ?thesis by simp
  next
    case False
    then have "chunk_loop array cnt i = slice array i (i + cnt) # chunk_loop array cnt (i + cnt)"
      by (subst chunk_loop.simps) auto
    with "1.prems" have "c = slice array i (i + cnt) \<or> c \<in> set (chunk_loop array cnt (i + cnt))"
      by auto
    then show ?thesis
    proof
      assume "c = slice array i (i + cnt)"
      then show ?thesis using slice_length [of array i "i + cnt"] by simp
    next
      assume "c \<in> set (chunk_loop array cnt (i + cnt))"
      with False "1.IH" show ?thesis by simp
    qed
  qed
qed

lemma us_chunk_bound: "c \<in> set (us_chunk array cnt) \<Longrightarrow> int (length c) \<le> cnt"
  using chunk_loop_bound [of c array "nat cnt" 0]
  by (auto simp: us_chunk_def split: if_splits)

lemma map_of_obj_set: "map_of (obj_set kvs k v) k' = (if k' = k then Some v else map_of kvs k')"
  by (induction kvs) auto

lemma chunk_test_SomeD:
  "chunk_test options = Inr (Some (opts, c, xs)) \<Longrightarrow>
     options = Some opts \<and> chunk opts = Some c \<and> map_of (lists opts) (param c) = Some xs
       \<and> chunk_length c < int (length xs)"
  by (auto simp: chunk_test_def split: option.splits if_splits)

lemma chunked_list_chunk_opts:
  "chunk opts = Some c \<Longrightarrow> chunked_list (chunk_opts opts c ch) = ch"
  by (simp add: chunked_list_def chunk_opts_def map_of_obj_set)

text \<open>
  \<^verbatim>\<open>POST(endpoint, options)\<close> (api.js, lines 66 to 147).  The result pairs the requests
  sent to the network, in the order their responses were consumed, with the outcome:
  \<open>Inl\<close> a rejection, \<open>Inr\<close> the resolved value.  Everything thrown inside the
  \<^verbatim>\<open>try\<close> block passes through \<^verbatim>\<open>maybePreSerializeAxiosError\<close>.
\<close>

function POST ::
  "('d, 'p) env \<Rightarrow> string \<Rightarrow> ('d, 'p) options option
     \<Rightarrow> ('d, 'p) request list \<times> (js_error + call_result)" where
  "POST env endpoint options =
     (case chunk_test options of
        Inl e \<Rightarrow> ([], Inl (maybePreSerializeAxiosError e))
      | Inr None \<Rightarrow>
          ([(endpoint, options)],
           (case net env (endpoint, options) of
              Inl e \<Rightarrow> Inl (maybePreSerializeAxiosError e)
            | Inr data \<Rightarrow> Inr data))
      | Inr (Some (opts, c, xs)) \<Rightarrow>
          (let chunks = us_chunk xs (chunk_length c);
               calls = map (\<lambda>ch. POST env endpoint (chunk_opts opts c ch)) chunks
           in case run_jobs (combine c) calls (completion env (length chunks)) ([], acc0) of
                (log, Inl e) \<Rightarrow> (log, Inl (maybePreSerializeAxiosError e))
              | (log, Inr st) \<Rightarrow>
                  (log,
                   (case combined env (combine c) st of
                      Inl e \<Rightarrow> Inl (maybePreSerializeAxiosError e)
                    | Inr r \<Rightarrow> Inr r))))"
  by pat_completeness auto
termination
proof (relation "measure (\<lambda>(env, endpoint, options). length (chunked_list options))", goal_cases)
  case 1
  show ?case by simp
next
  case (2 env endpoint options x y opts z c xs chunks ch)
  then have t: "chunk_test options = Inr (Some (opts, c, xs))" by simp
  have ch: "ch \<in> set (us_chunk xs (chunk_length c))" using 2 by simp
  from chunk_test_SomeD [OF t]
  have o: "options = Some opts" and c: "chunk opts = Some c"
    and m: "map_of (lists opts) (param c) = Some xs" and l: "chunk_length c < int (length xs)"
    by simp_all
  have "chunked_list options = xs" using o c m by (simp add: chunked_list_def)
  moreover have "chunked_list (chunk_opts opts c ch) = ch" by (rule chunked_list_chunk_opts [OF c])
  moreover have "int (length ch) \<le> chunk_length c" by (rule us_chunk_bound [OF ch])
  ultimately show ?case using l by simp
qed

declare POST.simps [simp del]

section \<open>The Dfyn adapter: \<^verbatim>\<open>tvl\<close>\<close>

text \<open>One entry of a \<^verbatim>\<open>calls\<close> list; an absent \<^verbatim>\<open>params\<close> is \<open>Undef\<close>.\<close>

record call_desc =
  target :: jsv
  params :: jsv

text \<open>The other options of an abi request.\<close>

record abi_opts =
  abi :: string
  call_target :: jsv
  chain :: string
  at_block :: jsv

text \<open>\<^verbatim>\<open>sdk.api.abi.call\<close> and \<^verbatim>\<open>sdk.api.abi.multiCall\<close> (api.js, lines 263 and 264).\<close>

definition abi_call ::
  "(call_desc, abi_opts) env \<Rightarrow> abi_opts
     \<Rightarrow> (call_desc, abi_opts) request list \<times> (js_error + call_result)" where
  "abi_call env opts = POST env ''/abi/call'' (Some \<lparr>lists = [], chunk = None, rest = opts\<rparr>)"

definition abi_multiCall ::
  "(call_desc, abi_opts) env \<Rightarrow> abi_opts \<Rightarrow> call_desc list
     \<Rightarrow> (call_desc, abi_opts) request list \<times> (js_error + call_result)" where
  "abi_multiCall env opts calls =
     POST env ''/abi/multiCall''
       (Some \<lparr>lists = [(''calls'', calls)],
              chunk = Some \<lparr>param = ''calls'', chunk_length = 5000, combine = ''array''\<rparr>,
              rest = opts\<rparr>)"

text \<open>
  What \<^verbatim>\<open>tvl\<close> needs besides \<^verbatim>\<open>POST\<close>: the answer to
  \<^verbatim>\<open>POST('/util/supportedTokens')\<close> (options undefined, so the direct branch: one round
  trip whose data is the token array), the built-in \<^verbatim>\<open>Number\<close> conversion (\<open>None\<close>
  when the result is not an integer), and \<^verbatim>\<open>sdk.util.sumMultiBalanceOf\<close>.
\<close>

record world =
  api :: "(call_desc, abi_opts) env"
  tokens_response :: "js_error + jsv"
  js_Number :: "jsv \<Rightarrow> int option"
  sumMultiBalanceOf :: "(string \<times> jsv) list \<Rightarrow> call_result \<Rightarrow> js_error + (string \<times> jsv) list"

definition util_supportedTokens ::
  "world \<Rightarrow> (call_desc, abi_opts) request list \<times> (js_error + jsv)" where
  "util_supportedTokens w =
     ([(''/util/supportedTokens'', None)],
      (case tokens_response w of
         Inl e \<Rightarrow> Inl (maybePreSerializeAxiosError e)
       | Inr data \<Rightarrow> Inr data))"

text \<open>Sequencing of awaited steps: the first rejection ends the function.\<close>

definition and_then ::
  "'r list \<times> (js_error + 'a) \<Rightarrow> ('a \<Rightarrow> 'r list \<times> (js_error + 'b)) \<Rightarrow> 'r list \<times> (js_error + 'b)" where
  "and_then m f =
     (case m of
        (log, Inl e) \<Rightarrow> (log, Inl e)
      | (log, Inr a) \<Rightarrow> (case f a of (log', r) \<Rightarrow> (log @ log', r)))"

definition local_step :: "js_error + 'a \<Rightarrow> 'r list \<times> (js_error + 'a)" where
  "local_step r = ([], r)"

text \<open>Reading a property: \<^verbatim>\<open>v.key\<close> or \<^verbatim>\<open>v[key]\<close> throws on \<^verbatim>\<open>undefined\<close> and \<^verbatim>\<open>null\<close>.\<close>

fun get_prop :: "jsv \<Rightarrow> string \<Rightarrow> js_error + jsv" where
  "get_prop Undef k = Inl (TypeError ''Cannot read property of undefined'')"
| "get_prop Null k = Inl (TypeError ''Cannot read property of null'')"
| "get_prop (Obj kvs) k = Inr (case map_of kvs k of None \<Rightarrow> Undef | Some v \<Rightarrow> v)"
| "get_prop v k = Inr Undef"

text \<open>\<^verbatim>\<open>String.prototype.toLowerCase\<close> on ASCII text.\<close>

definition lower_char :: "char \<Rightarrow> char" where
  "lower_char c =
     (let n = (of_char c :: nat) in if 65 \<le> n \<and> n \<le> 90 then char_of (n + 32) else c)"

definition toLowerCase :: "string \<Rightarrow> string" where
  "toLowerCase s = map lower_char s"

text \<open>\<^verbatim>\<open>result.output.toLowerCase()\<close>: only a string has the method.\<close>

definition output_toLowerCase :: "jsv \<Rightarrow> js_error + string" where
  "output_toLowerCase result =
     (case get_prop result ''output'' of
        Inl e \<Rightarrow> Inl e
      | Inr (Str s) \<Rightarrow> Inr (toLowerCase s)
      | Inr v \<Rightarrow> Inl (TypeError ''toLowerCase is not a function''))"

text \<open>A callback applied to each element in turn; the first throw ends the loop.\<close>

fun map_throwing :: "('a \<Rightarrow> js_error + 'b) \<Rightarrow> 'a list \<Rightarrow> js_error + 'b list" where
  "map_throwing f [] = Inr []"
| "map_throwing f (x # xs) =
     (case f x of
        Inl e \<Rightarrow> Inl e
      | Inr y \<Rightarrow> (case map_throwing f xs of Inl e \<Rightarrow> Inl e | Inr ys \<Rightarrow> Inr (y # ys)))"

text \<open>The elements of a value used as an array (\<^verbatim>\<open>.map\<close>, \<^verbatim>\<open>.forEach\<close>).\<close>

fun as_array :: "jsv \<Rightarrow> js_error + jsv list" where
  "as_array (Arr xs) = Inr xs"
| "as_array v = Inl (TypeError ''not a function'')"

text \<open>Lines 14 to 20: the \<^verbatim>\<open>polygon-pos\<close> address of each token, the falsy ones dropped.\<close>

definition token_platform :: "jsv \<Rightarrow> js_error + jsv" where
  "token_platform token =
     (case get_prop token ''platforms'' of
        Inl e \<Rightarrow> Inl e
      | Inr platforms \<Rightarrow>
          if truthy platforms then
            (case get_prop platforms ''polygon-pos'' of
               Inl e \<Rightarrow> Inl e
             | Inr a \<Rightarrow> if truthy a then Inr a else Inr Undef)
          else Inr Undef)"

definition supported_of :: "jsv \<Rightarrow> js_error + jsv list" where
  "supported_of data =
     (case as_array data of
        Inl e \<Rightarrow> Inl e
      | Inr tokens \<Rightarrow>
          (case map_throwing token_platform tokens of
             Inl e \<Rightarrow> Inl e
           | Inr supportedTokens \<Rightarrow> Inr (filter truthy supportedTokens)))"

text \<open>Line 33: \<^verbatim>\<open>Array.from(Array(Number(pairLength)).keys())\<close>.\<close>

definition pairNums_of :: "world \<Rightarrow> jsv \<Rightarrow> js_error + nat list" where
  "pairNums_of w pairLength =
     (case js_Number w pairLength of
        None \<Rightarrow> Inl (RangeError ''Invalid array length'')
      | Some n \<Rightarrow>
          if 0 \<le> n \<and> n \<le> 4294967295 then Inr [0..<nat n]
          else Inl (RangeError ''Invalid array length''))"

text \<open>The decimal numeral of a number, as a property key.\<close>

function dec :: "nat \<Rightarrow> string" where
  "dec n = (if n < 10 then [char_of (48 + n)] else dec (n div 10) @ [char_of (48 + n mod 10)])"
  by pat_completeness auto
termination
  by (relation "measure id") auto

declare dec.simps [simp del]

text \<open>
  \<^verbatim>\<open>pairs[key]\<close> for an array and a string key: the element when the key is the
  numeral of an index, nothing an object spread could copy otherwise.
\<close>

definition array_prop :: "jsv list \<Rightarrow> string \<Rightarrow> jsv" where
  "array_prop xs key =
     (case find (\<lambda>i. dec i = key) [0..<length xs] of None \<Rightarrow> Undef | Some i \<Rightarrow> xs ! i)"

text \<open>\<^verbatim>\<open>pairAddresses[i]\<close> used as a property key.\<close>

definition key_at :: "string list \<Rightarrow> nat \<Rightarrow> string" where
  "key_at pairAddresses i = (if i < length pairAddresses then pairAddresses ! i else ''undefined'')"

text \<open>The two fields of a \<^verbatim>\<open>tokenPairs\<close> entry that are ever read; absent is \<open>Undef\<close>.\<close>

record pair_record =
  token0Address :: jsv
  token1Address :: jsv

text \<open>Lines 76 to 83.\<close>

fun add_token0Addresses ::
  "jsv list \<Rightarrow> string list \<Rightarrow> jsv list \<Rightarrow> nat \<Rightarrow> (string \<times> pair_record) list
     \<Rightarrow> js_error + (string \<times> pair_record) list" where
  "add_token0Addresses supportedTokens pairAddresses [] i tokenPairs = Inr tokenPairs"
| "add_token0Addresses supportedTokens pairAddresses (t # ts) i tokenPairs =
     (case output_toLowerCase t of
        Inl e \<Rightarrow> Inl e
      | Inr a \<Rightarrow>
          add_token0Addresses supportedTokens pairAddresses ts (i + 1)
            (if Str a \<in> set supportedTokens then
               obj_set tokenPairs (key_at pairAddresses i)
                 \<lparr>token0Address = Str a, token1Address = Undef\<rparr>
             else tokenPairs))"

text \<open>
  Lines 86 to 94.  The entry is rebuilt from \<^verbatim>\<open>pairs[pairAddress] || {}\<close>, where
  \<^verbatim>\<open>pairs\<close> is the array of \<^verbatim>\<open>allPairs\<close> results, and not from the entry that the
  first loop stored in \<^verbatim>\<open>tokenPairs\<close>.
\<close>

definition spread_field :: "jsv \<Rightarrow> string \<Rightarrow> jsv" where
  "spread_field v k =
     (if truthy v then (case v of Obj kvs \<Rightarrow> (case map_of kvs k of None \<Rightarrow> Undef | Some x \<Rightarrow> x) | _ \<Rightarrow> Undef)
      else Undef)"

fun add_token1Addresses ::
  "jsv list \<Rightarrow> jsv list \<Rightarrow> string list \<Rightarrow> jsv list \<Rightarrow> nat \<Rightarrow> (string \<times> pair_record) list
     \<Rightarrow> js_error + (string \<times> pair_record) list" where
  "add_token1Addresses supportedTokens pairs pairAddresses [] i tokenPairs = Inr tokenPairs"
| "add_token1Addresses supportedTokens pairs pairAddresses (t # ts) i tokenPairs =
     (case output_toLowerCase t of
        Inl e \<Rightarrow> Inl e
      | Inr a \<Rightarrow>
          add_token1Addresses supportedTokens pairs pairAddresses ts (i + 1)
            (if Str a \<in> set supportedTokens then
               obj_set tokenPairs (key_at pairAddresses i)
                 \<lparr>token0Address = spread_field (array_prop pairs (key_at pairAddresses i)) ''token0Address'',
                  token1Address = Str a\<rparr>
             else tokenPairs))"

text \<open>
  \<^verbatim>\<open>Object.keys\<close>: the keys that are array indices (canonical numerals below
  \<open>2\<^sup>3\<^sup>2 - 1\<close>) in ascending order, then the other keys in insertion order.
\<close>

definition is_digit :: "char \<Rightarrow> bool" where
  "is_digit c = (let n = (of_char c :: nat) in 48 \<le> n \<and> n \<le> 57)"

definition numeral_value :: "string \<Rightarrow> nat" where
  "numeral_value k = foldl (\<lambda>a c. 10 * a + (of_char c - 48)) 0 k"

definition is_index :: "string \<Rightarrow> bool" where
  "is_index k =
     (case k of
        [] \<Rightarrow> False
      | c # cs \<Rightarrow>
          list_all is_digit k \<and> (if c = CHR ''0'' then cs = [] else True)
            \<and> numeral_value k < 4294967295)"

definition object_keys :: "(string \<times> 'v) list \<Rightarrow> string list" where
  "object_keys obj =
     sort_key numeral_value (filter is_index (map fst obj))
       @ filter (\<lambda>k. \<not> is_index k) (map fst obj)"

text \<open>Lines 96 to 112.\<close>

definition calls_of_pair :: "(string \<times> pair_record) list \<Rightarrow> string \<Rightarrow> call_desc list" where
  "calls_of_pair tokenPairs pair =
     (case map_of tokenPairs pair of
        None \<Rightarrow> []
      | Some r \<Rightarrow>
          (if truthy (token0Address r) then [\<lparr>target = token0Address r, params = Str pair\<rparr>] else [])
            @ (if truthy (token1Address r) then [\<lparr>target = token1Address r, params = Str pair\<rparr>] else []))"

definition balanceCalls_of :: "(string \<times> pair_record) list \<Rightarrow> call_desc list" where
  "balanceCalls_of tokenPairs = concat (map (calls_of_pair tokenPairs) (object_keys tokenPairs))"

text \<open>
  Lines 115 to 119, for a chunk size \<open>chunk_size\<close> (the adapter's \<^verbatim>\<open>chunk\<close> is 2500).  The index
  \<^verbatim>\<open>count\<close> is the number of chunks stored so far, so each assignment appends.
\<close>

function chunks_from :: "'a list \<Rightarrow> nat \<Rightarrow> nat \<Rightarrow> 'a list list \<Rightarrow> 'a list list" where
  "chunks_from balanceCalls chunk_size i balanceCallChunks =
     (if i < length balanceCalls \<and> 0 < chunk_size then
        chunks_from balanceCalls chunk_size (i + chunk_size)
          (balanceCallChunks @ [slice balanceCalls i (i + chunk_size)])
      else balanceCallChunks)"
  by pat_completeness auto
termination
  by (relation "measure (\<lambda>(balanceCalls, chunk_size, i, acc). length balanceCalls - i)") auto

declare chunks_from.simps [simp del]

text \<open>\<^verbatim>\<open>sdk.util.sumMultiBalanceOf(balances, tokenBalances)\<close> after each chunk's call (lines 126 to 135).\<close>

definition FACTORY :: string where
  "FACTORY = ''0xe7fb3e833efe5f9c441105eb65ef8b261266423b''"

definition polygon :: "string \<Rightarrow> jsv \<Rightarrow> jsv \<Rightarrow> abi_opts" where
  "polygon a t block = \<lparr>abi = a, call_target = t, chain = ''polygon'', at_block = block\<rparr>"

fun sum_chunks ::
  "world \<Rightarrow> jsv \<Rightarrow> call_desc list list \<Rightarrow> (string \<times> jsv) list
     \<Rightarrow> (call_desc, abi_opts) request list \<times> (js_error + (string \<times> jsv) list)" where
  "sum_chunks w block [] balances = local_step (Inr balances)"
| "sum_chunks w block (balanceCall # others) balances =
     and_then (abi_multiCall (api w) (polygon ''erc20:balanceOf'' Undef block) balanceCall)
       (\<lambda>tokenBalances.
          and_then (local_step (sumMultiBalanceOf w balances tokenBalances))
            (\<lambda>balances'. sum_chunks w block others balances'))"

text \<open>
  Lines 74 to 124: the pair records, the balance calls, their chunks and the assertion
  \<^verbatim>\<open>assert.equal(balanceCalls.length, sum of the chunk lengths)\<close>.
\<close>

definition tokenPairs_of ::
  "jsv list \<Rightarrow> jsv list \<Rightarrow> string list \<Rightarrow> jsv \<Rightarrow> jsv
     \<Rightarrow> js_error + (string \<times> pair_record) list" where
  "tokenPairs_of supportedTokens pairs pairAddresses token0Addresses token1Addresses =
     (case as_array token0Addresses of
        Inl e \<Rightarrow> Inl e
      | Inr t0s \<Rightarrow>
          (case add_token0Addresses supportedTokens pairAddresses t0s 0 [] of
             Inl e \<Rightarrow> Inl e
           | Inr tokenPairs \<Rightarrow>
               (case as_array token1Addresses of
                  Inl e \<Rightarrow> Inl e
                | Inr t1s \<Rightarrow> add_token1Addresses supportedTokens pairs pairAddresses t1s 0 tokenPairs)))"

definition assert_equal :: "nat \<Rightarrow> nat \<Rightarrow> js_error + unit" where
  "assert_equal actual expected =
     (if actual = expected then Inr () else Inl (AssertionError ''actual == expected''))"

definition checked_chunks :: "call_desc list \<Rightarrow> js_error + call_desc list list" where
  "checked_chunks balanceCalls =
     (let balanceCallChunks = chunks_from balanceCalls 2500 0 [] in
      case assert_equal (length balanceCalls)
             (foldl (\<lambda>accumulator v. accumulator + v) 0 (map length balanceCallChunks)) of
        Inl e \<Rightarrow> Inl e
      | Inr u \<Rightarrow> Inr balanceCallChunks)"

text \<open>\<^verbatim>\<open>tvl(timestamp, block)\<close> up to line 135: the accumulated \<^verbatim>\<open>balances\<close>.\<close>

definition tvl_balances ::
  "world \<Rightarrow> jsv \<Rightarrow> jsv
     \<Rightarrow> (call_desc, abi_opts) request list \<times> (js_error + (string \<times> jsv) list)" where
  "tvl_balances w timestamp block =
     and_then (util_supportedTokens w) (\<lambda>data.
     and_then (local_step (supported_of data)) (\<lambda>supportedTokens.
     and_then (abi_call (api w) (polygon ''allPairsLength'' (Str FACTORY) block)) (\<lambda>r.
       let pairLength = output' r in
       if pairLength = Null then local_step (Inl (Error ''allPairsLength() failed''))
       else
     and_then (local_step (pairNums_of w pairLength)) (\<lambda>pairNums.
     and_then (abi_multiCall (api w) (polygon ''allPairs'' Undef block)
                (map (\<lambda>num. \<lparr>target = Str FACTORY, params = Arr [Num (int num)]\<rparr>) pairNums)) (\<lambda>r.
     and_then (local_step (as_array (output' r))) (\<lambda>pairs.
     and_then (local_step (map_throwing output_toLowerCase pairs)) (\<lambda>pairAddresses.
     and_then (abi_multiCall (api w) (polygon ''token0'' Undef block)
                (map (\<lambda>pairAddress. \<lparr>target = Str pairAddress, params = Undef\<rparr>) pairAddresses)) (\<lambda>r0.
     and_then (abi_multiCall (api w) (polygon ''token1'' Undef block)
                (map (\<lambda>pairAddress. \<lparr>target = Str pairAddress, params = Undef\<rparr>) pairAddresses)) (\<lambda>r1.
     and_then (local_step (tokenPairs_of supportedTokens pairs pairAddresses (output' r0) (output' r1)))
       (\<lambda>tokenPairs.
     and_then (local_step (checked_chunks (balanceCalls_of tokenPairs))) (\<lambda>balanceCallChunks.
       sum_chunks w block balanceCallChunks [])))))))))))"

text \<open>Lines 137 to 143.\<close>

definition zero_address :: string where
  "zero_address = ''0x0000000000000000000000000000000000000000''"

definition or_sentinel :: "(string \<times> jsv) list \<Rightarrow> (string \<times> jsv) list" where
  "or_sentinel balances =
     (if length (object_keys balances) = 0 then [(zero_address, Num 0)] else balances)"

definition tvl ::
  "world \<Rightarrow> jsv \<Rightarrow> jsv
     \<Rightarrow> (call_desc, abi_opts) request list \<times> (js_error + (string \<times> jsv) list)" where
  "tvl w timestamp block =
     and_then (tvl_balances w timestamp block) (\<lambda>balances. local_step (Inr (or_sentinel balances)))"

text \<open>How deep the calls of \<^verbatim>\<open>POST\<close> to itself nest: 1 for a call that does not recurse.\<close>

function POST_depth :: "('d, 'p) options option \<Rightarrow> nat" where
  "POST_depth options =
     (case chunk_test options of
        Inl e \<Rightarrow> 1
      | Inr None \<Rightarrow> 1
      | Inr (Some (opts, c, xs)) \<Rightarrow>
          1 + foldr max (map (\<lambda>ch. POST_depth (chunk_opts opts c ch)) (us_chunk xs (chunk_length c))) 0)"
  by pat_completeness auto
termination
proof (relation "measure (\<lambda>options. length (chunked_list options))", goal_cases)
  case 1
  show ?case by simp
next
  case (2 options x y opts z c xs ch)
  then have t: "chunk_test options = Inr (Some (opts, c, xs))" by simp
  have ch: "ch \<in> set (us_chunk xs (chunk_length c))" using 2 by simp
  from chunk_test_SomeD [OF t]
  have o: "options = Some opts" and c: "chunk opts = Some c"
    and m: "map_of (lists opts) (param c) = Some xs" and l: "chunk_length c < int (length xs)"
    by simp_all
  have "chunked_list options = xs" using o c m by (simp add: chunked_list_def)
  moreover have "chunked_list (chunk_opts opts c ch) = ch" by (rule chunked_list_chunk_opts [OF c])
  moreover have "int (length ch) \<le> chunk_length c" by (rule us_chunk_bound [OF ch])
  ultimately show ?case using l by simp
qed

declare POST_depth.simps [simp del]

section \<open>Notions used in the statements\<close>

text \<open>
  The limiter (\<^verbatim>\<open>Bottleneck\<close> with \<^verbatim>\<open>maxConcurrent = K\<close>) starts the jobs in the order
  they were scheduled and keeps at most \<open>K\<close> of them running.  A completion order of
  \<open>n\<close> jobs is then a permutation of the indices in which the job that completes at
  position \<open>p\<close> had been started by then: its index is below \<open>p + K\<close>.
\<close>

definition admissible :: "nat \<Rightarrow> nat \<Rightarrow> nat list \<Rightarrow> bool" where
  "admissible K n ord =
     (mset ord = mset [0..<n] \<and> list_all (\<lambda>p. ord ! p < p + K) [0..<n])"

text \<open>The count a chunk's answer adds to the total: nothing when it is missing.\<close>

definition count_of :: "call_result \<Rightarrow> int" where
  "count_of r = (case ethCallCount r of None \<Rightarrow> 0 | Some n \<Rightarrow> n)"

text \<open>What \<^verbatim>\<open>processRequest\<close> appends to \<^verbatim>\<open>output\<close> for one answer, or the error it throws.\<close>

definition contribution :: "string \<Rightarrow> call_result \<Rightarrow> js_error + jsv list" where
  "contribution comb r =
     (if count_of r = 0 then Inr []
      else if comb = ''array'' then spread (output' r)
      else if comb = ''balances'' then Inr [output' r]
      else Inr [])"

text \<open>The direct branch of \<^verbatim>\<open>POST\<close> (lines 134 to 142) with its \<^verbatim>\<open>catch\<close>.\<close>

definition direct :: "('d, 'p) env \<Rightarrow> string \<Rightarrow> ('d, 'p) options option
    \<Rightarrow> ('d, 'p) request list \<times> (js_error + call_result)" where
  "direct env endpoint options =
     ([(endpoint, options)],
      (case net env (endpoint, options) of
         Inl e \<Rightarrow> Inl (maybePreSerializeAxiosError e)
       | Inr data \<Rightarrow> Inr data))"

text \<open>The elements that one answer adds to the combined array: none when its count is zero or missing.\<close>

definition kept :: "call_result \<Rightarrow> jsv list" where
  "kept r = (if count_of r = 0 then [] else case spread (output' r) of Inl e \<Rightarrow> [] | Inr ys \<Rightarrow> ys)"

text \<open>A chunk whose request is answered and whose answer \<^verbatim>\<open>processRequest\<close> accepts.\<close>

definition resolves :: "('d, 'p) env \<Rightarrow> string \<Rightarrow> string \<Rightarrow> ('d, 'p) options option \<Rightarrow> bool" where
  "resolves env comb endpoint options =
     (case net env (endpoint, options) of
        Inl e \<Rightarrow> False
      | Inr r \<Rightarrow> (case contribution comb r of Inl e \<Rightarrow> False | Inr ys \<Rightarrow> True))"

text \<open>An allow-list entry that a lower-cased address can equal: a string without upper-case letters.\<close>

definition lower_case_entry :: "jsv \<Rightarrow> bool" where
  "lower_case_entry v = (case v of Str e \<Rightarrow> list_all (\<lambda>c. lower_char c = c) e | _ \<Rightarrow> False)"

text \<open>
  The keys under which a loop writes: for the lower-cased addresses \<open>ls\<close> of the tokens
  at positions \<open>i\<close>, \<open>i + 1\<close>, ..., the pair address at each position whose address is an
  element of the allow-list.
\<close>

fun written_keys :: "jsv list \<Rightarrow> string list \<Rightarrow> nat \<Rightarrow> string list \<Rightarrow> string list" where
  "written_keys supportedTokens pairAddresses i [] = []"
| "written_keys supportedTokens pairAddresses i (a # ls) =
     (if Str a \<in> set supportedTokens then [key_at pairAddresses i] else [])
       @ written_keys supportedTokens pairAddresses (i + 1) ls"

section \<open>Example inputs\<close>

text \<open>A call result as the service returns it, with its output.\<close>

definition ex_result :: "string \<Rightarrow> jsv" where
  "ex_result a = Obj [(''output'', Str a), (''success'', Num 1)]"

text \<open>A service that answers every request with one call counted and an empty array.\<close>

definition ex_env :: "(nat, unit) env" where
  "ex_env = \<lparr>net = (\<lambda>req. Inr \<lparr>ethCallCount = Some 1, output' = Arr []\<rparr>),
            completion = (\<lambda>n. [0..<n]),
            util_sum = (\<lambda>vs. Inr (Arr vs))\<rparr>"

definition ex_cfg :: chunk_cfg where
  "ex_cfg = \<lparr>param = ''calls'', chunk_length = 2, combine = ''array''\<rparr>"

definition ex_opts :: "nat list \<Rightarrow> (nat, unit) options" where
  "ex_opts xs = \<lparr>lists = [(''calls'', xs)], chunk = Some ex_cfg, rest = ()\<rparr>"

text \<open>
  A service that answers a \<^verbatim>\<open>calls\<close> request with one value per call (the call's
  number) and counts the calls; \<open>ex_uncounted\<close> is the same service without the count.
\<close>

definition ex_calls :: "(nat, unit) request \<Rightarrow> nat list" where
  "ex_calls req =
     (case snd req of
        None \<Rightarrow> []
      | Some opts \<Rightarrow> (case map_of (lists opts) ''calls'' of None \<Rightarrow> [] | Some xs \<Rightarrow> xs))"

definition ex_counted :: "(nat, unit) request \<Rightarrow> js_error + call_result" where
  "ex_counted req =
     Inr \<lparr>ethCallCount = Some (int (length (ex_calls req))),
          output' = Arr (map (\<lambda>n. Num (int n)) (ex_calls req))\<rparr>"

definition ex_uncounted :: "(nat, unit) request \<Rightarrow> js_error + call_result" where
  "ex_uncounted req =
     Inr \<lparr>ethCallCount = None, output' = Arr (map (\<lambda>n. Num (int n)) (ex_calls req))\<rparr>"

text \<open>Jobs completing in chunk order, and in the reverse order.\<close>

definition ex_in_order :: "(nat, unit) env" where
  "ex_in_order = \<lparr>net = ex_counted, completion = (\<lambda>n. [0..<n]), util_sum = (\<lambda>vs. Inr (Arr vs))\<rparr>"

definition ex_reversed :: "(nat, unit) env" where
  "ex_reversed = \<lparr>net = ex_counted, completion = (\<lambda>n. rev [0..<n]), util_sum = (\<lambda>vs. Inr (Arr vs))\<rparr>"

definition ex_in_order_uncounted :: "(nat, unit) env" where
  "ex_in_order_uncounted =
     \<lparr>net = ex_uncounted, completion = (\<lambda>n. [0..<n]), util_sum = (\<lambda>vs. Inr (Arr vs))\<rparr>"

text \<open>The answers of the counting service to the chunks of \<open>[7, 8, 9]\<close>.\<close>

definition ex_rs :: "call_result list" where
  "ex_rs = [\<lparr>ethCallCount = Some 2, output' = Arr [Num 7, Num 8]\<rparr>,
            \<lparr>ethCallCount = Some 1, output' = Arr [Num 9]\<rparr>]"

text \<open>An HTTP failure as axios reports it, the same error after \<^verbatim>\<open>maybePreSerializeAxiosError\<close>,
  a failure without a response, and a service that fails every request containing call 9.\<close>

definition ex_http_error :: js_error where
  "ex_http_error =
     \<lparr>name = ''Error'', message = ''Request failed with status code 500'',
      response = Some [(''status'', ''500''), (''statusText'', ''Internal Server Error''),
                       (''headers'', ''content-type: text/html''), (''data'', ''overloaded'')],
      config = Some [(''url'', ''/abi/multiCall''), (''method'', ''post''),
                     (''headers'', ''Accept: application/json''), (''data'', ''calls'')],
      request = Some ''ClientRequest''\<rparr>"

definition ex_trimmed_error :: js_error where
  "ex_trimmed_error =
     \<lparr>name = ''Error'', message = ''Request failed with status code 500'',
      response = Some [(''status'', ''500''), (''statusText'', ''Internal Server Error''),
                       (''data'', ''overloaded'')],
      config = Some [(''method'', ''post''), (''url'', ''/abi/multiCall''), (''data'', ''calls'')],
      request = None\<rparr>"

definition ex_network_error :: js_error where
  "ex_network_error = Error ''connect ECONNREFUSED''"

definition ex_failing :: "js_error \<Rightarrow> (nat, unit) env" where
  "ex_failing e =
     \<lparr>net = (\<lambda>req. if 9 \<in> set (ex_calls req) then Inl e else ex_counted req),
      completion = (\<lambda>n. [0..<n]),
      util_sum = (\<lambda>vs. Inr (Arr vs))\<rparr>"

text \<open>
  A world without supported tokens whose factory answers \<^verbatim>\<open>allPairsLength\<close> with the
  given value and every other request with an empty array.
\<close>

definition ex_net :: "jsv \<Rightarrow> (call_desc, abi_opts) request \<Rightarrow> js_error + call_result" where
  "ex_net pairLength req =
     (case snd req of
        None \<Rightarrow> Inr \<lparr>ethCallCount = None, output' = Undef\<rparr>
      | Some opts \<Rightarrow>
          if abi (rest opts) = ''allPairsLength'' then Inr \<lparr>ethCallCount = Some 1, output' = pairLength\<rparr>
          else Inr \<lparr>ethCallCount = Some 0, output' = Arr []\<rparr>)"

definition ex_world :: "jsv \<Rightarrow> world" where
  "ex_world pairLength =
     \<lparr>api = \<lparr>net = ex_net pairLength, completion = (\<lambda>n. [0..<n]), util_sum = (\<lambda>vs. Inr (Arr vs))\<rparr>,
      tokens_response = Inr (Arr []),
      js_Number = (\<lambda>v. case v of Num n \<Rightarrow> Some n | _ \<Rightarrow> None),
      sumMultiBalanceOf = (\<lambda>balances tokenBalances. Inr balances)\<rparr>"



section \<open>Properties\<close>

lemma slice_eq: "slice xs i (i + n) = take n (drop i xs)"
  by (simp add: slice_def)

lemma chunk_loop_concat: "0 < cnt \<Longrightarrow> concat (chunk_loop array cnt i) = drop i array"
proof (induction array cnt i rule: chunk_loop.induct)
  case (1 array cnt i)
  show ?case
  proof (cases "i < length array")
    case True
    with "1.prems" have "chunk_loop array cnt i = slice array i (i + cnt) # chunk_loop array cnt (i + cnt)"
      by (subst chunk_loop.simps) simp
    moreover have "concat (chunk_loop array cnt (i + cnt)) = drop (i + cnt) array"
      using "1.IH" "1.prems" True by simp
    moreover have "take cnt (drop i array) @ drop (i + cnt) array = drop i array"
      by (metis add.commute append_take_drop_id drop_drop)
    ultimately show ?thesis by (simp add: slice_eq)
  next
    case False
    then have "chunk_loop array cnt i = []"
      by (subst chunk_loop.simps) simp
    with False show ?thesis by simp
  qed
qed

lemma us_chunk_concat: "1 \<le> m \<Longrightarrow> concat (us_chunk array m) = array"
  by (simp add: us_chunk_def chunk_loop_concat)

lemma chunks_from_concat:
  "0 < chunk_size \<Longrightarrow>
     concat (chunks_from balanceCalls chunk_size i acc) = concat acc @ drop i balanceCalls"
proof (induction balanceCalls chunk_size i acc rule: chunks_from.induct)
  case (1 balanceCalls chunk_size i acc)
  show ?case
  proof (cases "i < length balanceCalls")
    case True
    with "1.prems" have "chunks_from balanceCalls chunk_size i acc =
        chunks_from balanceCalls chunk_size (i + chunk_size) (acc @ [slice balanceCalls i (i + chunk_size)])"
      by (subst chunks_from.simps) simp
    moreover have "concat (chunks_from balanceCalls chunk_size (i + chunk_size) (acc @ [slice balanceCalls i (i + chunk_size)]))
        = concat (acc @ [slice balanceCalls i (i + chunk_size)]) @ drop (i + chunk_size) balanceCalls"
      using "1.IH" "1.prems" True by simp
    moreover have "take chunk_size (drop i balanceCalls) @ drop (i + chunk_size) balanceCalls = drop i balanceCalls"
      by (metis add.commute append_take_drop_id drop_drop)
    ultimately show ?thesis by (simp add: slice_eq)
  next
    case False
    then have "chunks_from balanceCalls chunk_size i acc = acc"
      by (subst chunks_from.simps) simp
    with False show ?thesis by simp
  qed
qed

lemma foldl_plus_lengths: "foldl (\<lambda>accumulator v. accumulator + v) a (map length xss) = a + length (concat xss)"
  by (induction xss arbitrary: a) auto

text \<open>
  Claim C4.  For every list of balance calls and every chunk size of at least 1, the
  chunks built by the adapter's loop, flattened in chunk order, are the original list;
  the adapter's assertion that the list length equals the sum of the chunk lengths
  holds, so the checked chunking (chunk size 2500) never throws; and the same is true of
  the chunks that \<^verbatim>\<open>_.chunk\<close> builds for \<^verbatim>\<open>POST\<close>.
\<close>

theorem chunking_complete:
  assumes "1 \<le> m"
  shows "concat (chunks_from balanceCalls m 0 []) = balanceCalls
    \<and> assert_equal (length balanceCalls)
        (foldl (\<lambda>accumulator v. accumulator + v) 0 (map length (chunks_from balanceCalls m 0 []))) = Inr ()
    \<and> concat (us_chunk balanceCalls (int m)) = balanceCalls
    \<and> checked_chunks balanceCalls = Inr (chunks_from balanceCalls 2500 0 [])"
proof -
  have c: "\<And>k. 0 < k \<Longrightarrow> concat (chunks_from balanceCalls k 0 []) = balanceCalls"
    by (simp add: chunks_from_concat)
  have a: "\<And>k. 0 < k \<Longrightarrow> assert_equal (length balanceCalls)
        (foldl (\<lambda>accumulator v. accumulator + v) 0 (map length (chunks_from balanceCalls k 0 []))) = Inr ()"
    by (simp add: foldl_plus_lengths c assert_equal_def)
  have "checked_chunks balanceCalls = Inr (chunks_from balanceCalls 2500 0 [])"
    using a [of 2500] by (simp add: checked_chunks_def)
  moreover have "concat (us_chunk balanceCalls (int m)) = balanceCalls"
    using assms by (simp add: us_chunk_concat)
  ultimately show ?thesis using assms c [of m] a [of m] by simp
qed

theorem chunking_complete_witness:
  "(1::nat) \<le> 2
    \<and> chunks_from [\<lparr>target = Str ''a'', params = Str ''p''\<rparr>, \<lparr>target = Str ''b'', params = Str ''p''\<rparr>,
          \<lparr>target = Str ''c'', params = Str ''q''\<rparr>] 2 0 []
        = [[\<lparr>target = Str ''a'', params = Str ''p''\<rparr>, \<lparr>target = Str ''b'', params = Str ''p''\<rparr>],
           [\<lparr>target = Str ''c'', params = Str ''q''\<rparr>]]
    \<and> concat (chunks_from [\<lparr>target = Str ''a'', params = Str ''p''\<rparr>, \<lparr>target = Str ''b'', params = Str ''p''\<rparr>,
          \<lparr>target = Str ''c'', params = Str ''q''\<rparr>] 2 0 [])
        = [\<lparr>target = Str ''a'', params = Str ''p''\<rparr>, \<lparr>target = Str ''b'', params = Str ''p''\<rparr>,
           \<lparr>target = Str ''c'', params = Str ''q''\<rparr>]
    \<and> concat (us_chunk [\<lparr>target = Str ''a'', params = Str ''p''\<rparr>, \<lparr>target = Str ''b'', params = Str ''p''\<rparr>,
          \<lparr>target = Str ''c'', params = Str ''q''\<rparr>] (int 2))
        = [\<lparr>target = Str ''a'', params = Str ''p''\<rparr>, \<lparr>target = Str ''b'', params = Str ''p''\<rparr>,
           \<lparr>target = Str ''c'', params = Str ''q''\<rparr>]"
proof -
  have h: "(1::nat) \<le> 2" by simp
  have "chunks_from [\<lparr>target = Str ''a'', params = Str ''p''\<rparr>, \<lparr>target = Str ''b'', params = Str ''p''\<rparr>,
          \<lparr>target = Str ''c'', params = Str ''q''\<rparr>] 2 0 []
        = [[\<lparr>target = Str ''a'', params = Str ''p''\<rparr>, \<lparr>target = Str ''b'', params = Str ''p''\<rparr>],
           [\<lparr>target = Str ''c'', params = Str ''q''\<rparr>]]"
    by (simp add: chunks_from.simps slice_def)
  with h chunking_complete [OF h, of "[\<lparr>target = Str ''a'', params = Str ''p''\<rparr>,
      \<lparr>target = Str ''b'', params = Str ''p''\<rparr>, \<lparr>target = Str ''c'', params = Str ''q''\<rparr>]"]
  show ?thesis by simp
qed

lemma chunk_test_chunk_opts:
  assumes "chunk_test options = Inr (Some (opts, c, xs))"
    and "ch \<in> set (us_chunk xs (chunk_length c))"
  shows "chunk_test (chunk_opts opts c ch) = Inr None"
proof -
  from chunk_test_SomeD [OF assms(1)] have c: "chunk opts = Some c" by simp
  have "int (length ch) \<le> chunk_length c" by (rule us_chunk_bound [OF assms(2)])
  then show ?thesis using c
    by (simp add: chunk_test_def chunk_opts_def map_of_obj_set)
qed

lemma POST_direct:
  "chunk_test options = Inr None \<Longrightarrow>
     POST env endpoint options =
       ([(endpoint, options)],
        (case net env (endpoint, options) of
           Inl e \<Rightarrow> Inl (maybePreSerializeAxiosError e)
         | Inr data \<Rightarrow> Inr data))"
  by (subst POST.simps) simp

lemma foldr_max_le: "(\<And>x. x \<in> set xs \<Longrightarrow> x \<le> b) \<Longrightarrow> foldr max xs 0 \<le> (b::nat)"
  by (induction xs) auto

lemma POST_depth_le: "POST_depth options \<le> 2"
proof (cases "chunk_test options")
  case (Inl e)
  then show ?thesis by (subst POST_depth.simps) simp
next
  case (Inr r)
  show ?thesis
  proof (cases r)
    case None
    with Inr show ?thesis by (subst POST_depth.simps) simp
  next
    case (Some t)
    obtain opts c xs where t: "t = (opts, c, xs)" by (cases t) auto
    have ct: "chunk_test options = Inr (Some (opts, c, xs))" using Inr Some t by simp
    have "\<And>ch. ch \<in> set (us_chunk xs (chunk_length c)) \<Longrightarrow> POST_depth (chunk_opts opts c ch) = 1"
    proof -
      fix ch assume "ch \<in> set (us_chunk xs (chunk_length c))"
      then have "chunk_test (chunk_opts opts c ch) = Inr None"
        by (rule chunk_test_chunk_opts [OF ct])
      then show "POST_depth (chunk_opts opts c ch) = 1"
        by (subst POST_depth.simps) simp
    qed
    then have "foldr max (map (\<lambda>ch. POST_depth (chunk_opts opts c ch)) (us_chunk xs (chunk_length c))) 0 \<le> 1"
      by (intro foldr_max_le) auto
    with ct show ?thesis by (subst POST_depth.simps) simp
  qed
qed

text \<open>
  Claim C10.  \<^verbatim>\<open>POST\<close> is a total function (its termination is proved where it is
  defined).  When it takes the chunking branch, every chunk it passes to itself is no
  longer than the configured chunk length, so the recursive call fails the chunking
  test, sends its request directly and recurses no further: the calls nest at most two
  deep.
\<close>

theorem POST_recursion_bounded:
  assumes "chunk_test options = Inr (Some (opts, c, xs))"
    and "ch \<in> set (us_chunk xs (chunk_length c))"
  shows "int (length ch) \<le> chunk_length c
    \<and> chunk_test (chunk_opts opts c ch) = Inr None
    \<and> POST env endpoint (chunk_opts opts c ch) =
        ([(endpoint, chunk_opts opts c ch)],
         (case net env (endpoint, chunk_opts opts c ch) of
            Inl e \<Rightarrow> Inl (maybePreSerializeAxiosError e)
          | Inr data \<Rightarrow> Inr data))
    \<and> POST_depth (chunk_opts opts c ch) = 1
    \<and> POST_depth options \<le> 2"
proof -
  have t: "chunk_test (chunk_opts opts c ch) = Inr None"
    by (rule chunk_test_chunk_opts [OF assms])
  have "POST_depth (chunk_opts opts c ch) = 1"
    using t by (subst POST_depth.simps) simp
  then show ?thesis
    using us_chunk_bound [OF assms(2)] t POST_direct [OF t] POST_depth_le by simp
qed

theorem POST_recursion_bounded_witness:
  "chunk_test (Some (ex_opts [7, 8, 9])) = Inr (Some (ex_opts [7, 8, 9], ex_cfg, [7, 8, 9]))
    \<and> [9] \<in> set (us_chunk [7, 8, 9 :: nat] (chunk_length ex_cfg))
    \<and> int (length [9 :: nat]) \<le> chunk_length ex_cfg
    \<and> chunk_test (chunk_opts (ex_opts [7, 8, 9]) ex_cfg [9]) = Inr None
    \<and> POST ex_env ''/abi/multiCall'' (chunk_opts (ex_opts [7, 8, 9]) ex_cfg [9]) =
        ([(''/abi/multiCall'', chunk_opts (ex_opts [7, 8, 9]) ex_cfg [9])],
         Inr \<lparr>ethCallCount = Some 1, output' = Arr []\<rparr>)
    \<and> POST_depth (Some (ex_opts [7, 8, 9])) \<le> 2"
proof -
  have t: "chunk_test (Some (ex_opts [7, 8, 9])) = Inr (Some (ex_opts [7, 8, 9], ex_cfg, [7, 8, 9]))"
    by (simp add: chunk_test_def ex_opts_def ex_cfg_def)
  have "us_chunk [7, 8, 9 :: nat] (chunk_length ex_cfg) = [[7, 8], [9]]"
    by (simp add: us_chunk_def ex_cfg_def chunk_loop.simps slice_def)
  then have m: "[9] \<in> set (us_chunk [7, 8, 9 :: nat] (chunk_length ex_cfg))" by simp
  have n: "net ex_env (''/abi/multiCall'', chunk_opts (ex_opts [7, 8, 9]) ex_cfg [9])
      = Inr \<lparr>ethCallCount = Some 1, output' = Arr []\<rparr>"
    by (simp add: ex_env_def)
  show ?thesis
    using t m POST_recursion_bounded [OF t m, of ex_env "''/abi/multiCall''"] n by simp
qed

lemma processRequest_contribution:
  "processRequest comb st r =
     (case contribution comb r of
        Inl e \<Rightarrow> Inl e
      | Inr ys \<Rightarrow> Inr (st\<lparr>acc_ethCallCount := acc_ethCallCount st + count_of r,
                          acc_output := acc_output st @ ys,
                          complete := complete st + 1\<rparr>))"
  by (cases "ethCallCount r")
     (auto simp: processRequest_def contribution_def count_of_def Let_def split: sum.splits)

lemma POST_chunked:
  assumes "chunk_test options = Inr (Some (opts, c, xs))"
  shows "POST env endpoint options =
     (case run_jobs (combine c)
             (map (\<lambda>ch. direct env endpoint (chunk_opts opts c ch)) (us_chunk xs (chunk_length c)))
             (completion env (length (us_chunk xs (chunk_length c)))) ([], acc0) of
        (log, Inl e) \<Rightarrow> (log, Inl (maybePreSerializeAxiosError e))
      | (log, Inr st) \<Rightarrow>
          (log,
           (case combined env (combine c) st of
              Inl e \<Rightarrow> Inl (maybePreSerializeAxiosError e)
            | Inr r \<Rightarrow> Inr r)))"
proof -
  have eq: "map (\<lambda>ch. POST env endpoint (chunk_opts opts c ch)) (us_chunk xs (chunk_length c))
      = map (\<lambda>ch. direct env endpoint (chunk_opts opts c ch)) (us_chunk xs (chunk_length c))"
  proof (rule map_cong [OF refl])
    fix ch assume "ch \<in> set (us_chunk xs (chunk_length c))"
    then have "chunk_test (chunk_opts opts c ch) = Inr None"
      by (rule chunk_test_chunk_opts [OF assms])
    then show "POST env endpoint (chunk_opts opts c ch) = direct env endpoint (chunk_opts opts c ch)"
      by (simp add: POST_direct direct_def)
  qed
  show ?thesis
    by (subst POST.simps) (simp only: assms sum.case option.case prod.case Let_def eq)
qed

lemma run_jobs_all_resolve:
  assumes "\<forall>i\<in>set ord. i < length calls \<and> calls ! i = (Q i, Inr (R i))
              \<and> contribution comb (R i) = Inr (Y i)"
  shows "run_jobs comb calls ord (log, st) =
     (log @ concat (map Q ord),
      Inr (st\<lparr>acc_ethCallCount := acc_ethCallCount st + sum_list (map (\<lambda>i. count_of (R i)) ord),
              acc_output := acc_output st @ concat (map Y ord),
              complete := complete st + length ord\<rparr>))"
  using assms
proof (induction ord arbitrary: log st)
  case Nil
  then show ?case by simp
next
  case (Cons i ord)
  then have i: "i < length calls" "calls ! i = (Q i, Inr (R i))" "contribution comb (R i) = Inr (Y i)"
    and rest: "\<forall>i\<in>set ord. i < length calls \<and> calls ! i = (Q i, Inr (R i))
              \<and> contribution comb (R i) = Inr (Y i)"
    by simp_all
  show ?case
    using i by (simp add: processRequest_contribution Cons.IH [OF rest] add.assoc)
qed

lemma run_jobs_append:
  "run_jobs comb calls pre (log, st) = (log', Inr st') \<Longrightarrow>
     run_jobs comb calls (pre @ post) (log, st) = run_jobs comb calls post (log', st')"
proof (induction pre arbitrary: log st)
  case Nil
  then show ?case by simp
next
  case (Cons i pre)
  show ?case
  proof (cases "i < length calls")
    case False
    with Cons show ?thesis by simp
  next
    case True
    obtain q r where c: "calls ! i = (q, r)" by (cases "calls ! i") auto
    show ?thesis
    proof (cases r)
      case (Inl e)
      with Cons.prems True c show ?thesis by simp
    next
      case (Inr call)
      show ?thesis
      proof (cases "processRequest comb st call")
        case (Inl e)
        with Cons.prems True c Inr show ?thesis by simp
      next
        case (Inr st1)
        with Cons.prems True c \<open>r = Inr call\<close>
        have "run_jobs comb calls pre (log @ q, st1) = (log', Inr st')" by simp
        from Cons.IH [OF this] True c \<open>r = Inr call\<close> Inr show ?thesis by simp
      qed
    qed
  qed
qed

lemma run_jobs_some_reject:
  assumes "i \<in> set ord" "i < length calls" "calls ! i = (q, Inl e)"
  shows "\<exists>e'. snd (run_jobs comb calls ord (log, st)) = Inl e'"
  using assms(1)
proof (induction ord arbitrary: log st)
  case Nil
  then show ?case by simp
next
  case (Cons j ord)
  show ?case
  proof (cases "j < length calls")
    case False
    with Cons assms(2) have "i \<in> set ord" by auto
    from Cons.IH [OF this] False show ?thesis by simp
  next
    case True
    obtain q' r where c: "calls ! j = (q', r)" by (cases "calls ! j") auto
    show ?thesis
    proof (cases r)
      case (Inl e1)
      with True c show ?thesis by simp
    next
      case (Inr call)
      show ?thesis
      proof (cases "processRequest comb st call")
        case (Inl e1)
        with True c Inr show ?thesis by simp
      next
        case (Inr st1)
        have "i \<in> set ord"
        proof (rule ccontr)
          assume "i \<notin> set ord"
          with Cons.prems have "i = j" by simp
          with c assms(3) \<open>r = Inr call\<close> show False by simp
        qed
        from Cons.IH [OF this, of "log @ q'" st1] True c \<open>r = Inr call\<close> Inr show ?thesis by simp
      qed
    qed
  qed
qed

lemma run_jobs_first_reject:
  assumes pre: "\<forall>j\<in>set pre. j < length calls \<and> calls ! j = (Q j, Inr (R j))
              \<and> contribution comb (R j) = Inr (Y j)"
    and i: "i < length calls" "calls ! i = (q, Inl e)"
  shows "snd (run_jobs comb calls (pre @ i # post) (log, st)) = Inl e"
proof -
  have "snd (run_jobs comb calls (i # post) (log', st')) = Inl e" for log' st'
    using i by simp
  then show ?thesis
    by (simp add: run_jobs_append [OF run_jobs_all_resolve [OF pre]])
qed

lemma contribution_array_kept:
  "output' r = Arr ys \<Longrightarrow> contribution ''array'' r = Inr (kept r)"
  by (simp add: contribution_def kept_def)

lemma direct_calls_nth:
  assumes "map (\<lambda>ch. net env (endpoint, chunk_opts opts c ch)) chunks = map Inr rs"
    and "i < length rs"
  shows "map (\<lambda>ch. direct env endpoint (chunk_opts opts c ch)) chunks ! i
      = ([(endpoint, chunk_opts opts c (chunks ! i))], Inr (rs ! i))"
proof -
  have l: "length chunks = length rs" using assms(1) by (metis length_map)
  have "net env (endpoint, chunk_opts opts c (chunks ! i)) = Inr (rs ! i)"
    using assms l by (metis nth_map)
  then show ?thesis using assms(2) l by (simp add: direct_def)
qed

lemma POST_array_resolves:
  assumes ct: "chunk_test options = Inr (Some (opts, c, xs))"
    and arr: "combine c = ''array''"
    and net: "map (\<lambda>ch. net env (endpoint, chunk_opts opts c ch)) (us_chunk xs (chunk_length c)) = map Inr rs"
    and arrs: "\<forall>r\<in>set rs. \<exists>ys. output' r = Arr ys"
    and ord: "set (completion env (length rs)) \<subseteq> {0..<length rs}"
  shows "snd (POST env endpoint options) =
     Inr \<lparr>ethCallCount = Some (sum_list (map (\<lambda>i. count_of (rs ! i)) (completion env (length rs)))),
          output' = Arr (concat (map (\<lambda>i. kept (rs ! i)) (completion env (length rs))))\<rparr>"
proof -
  let ?chunks = "us_chunk xs (chunk_length c)"
  let ?calls = "map (\<lambda>ch. direct env endpoint (chunk_opts opts c ch)) ?chunks"
  let ?ord = "completion env (length rs)"
  have l: "length ?chunks = length rs" using net by (metis length_map)
  have all: "\<forall>i\<in>set ?ord. i < length ?calls
      \<and> ?calls ! i = ([(endpoint, chunk_opts opts c (?chunks ! i))], Inr (rs ! i))
      \<and> contribution ''array'' (rs ! i) = Inr (kept (rs ! i))"
  proof
    fix i assume "i \<in> set ?ord"
    with ord have i: "i < length rs" by auto
    then have "rs ! i \<in> set rs" by simp
    with arrs obtain ys where "output' (rs ! i) = Arr ys" by blast
    then have "contribution ''array'' (rs ! i) = Inr (kept (rs ! i))"
      by (rule contribution_array_kept)
    with i l direct_calls_nth [OF net i]
    show "i < length ?calls
      \<and> ?calls ! i = ([(endpoint, chunk_opts opts c (?chunks ! i))], Inr (rs ! i))
      \<and> contribution ''array'' (rs ! i) = Inr (kept (rs ! i))" by simp
  qed
  show ?thesis
    by (simp add: POST_chunked [OF ct] arr l run_jobs_all_resolve [OF all] combined_def acc0_def)
qed

lemma sum_list_perm:
  fixes f :: "'a \<Rightarrow> 'b::comm_monoid_add"
  shows "mset ord = mset [0..<length rs] \<Longrightarrow> sum_list (map (\<lambda>i. f (rs ! i)) ord) = sum_list (map f rs)"
proof -
  assume p: "mset ord = mset [0..<length rs]"
  have "sum_list (map (\<lambda>i. f (rs ! i)) ord) = sum_mset (image_mset (\<lambda>i. f (rs ! i)) (mset ord))"
    by (metis mset_map sum_mset_sum_list)
  also have "\<dots> = sum_mset (image_mset (\<lambda>i. f (rs ! i)) (mset [0..<length rs]))"
    by (simp only: p)
  also have "\<dots> = sum_list (map (\<lambda>i. f (rs ! i)) [0..<length rs])"
    by (metis mset_map sum_mset_sum_list)
  also have "map (\<lambda>i. f (rs ! i)) [0..<length rs] = map f rs"
    by (simp add: map_nth map_equality_iff)
  finally show ?thesis .
qed

lemma mset_concat_perm:
  "mset ord = mset [0..<length rs] \<Longrightarrow>
     mset (concat (map (\<lambda>i. f (rs ! i)) ord)) = mset (concat (map f rs))"
proof -
  assume p: "mset ord = mset [0..<length rs]"
  have "mset (concat (map (\<lambda>i. f (rs ! i)) ord)) = sum_list (map (\<lambda>i. mset (f (rs ! i))) ord)"
    by (simp add: mset_concat comp_def)
  also have "\<dots> = sum_list (map (\<lambda>r. mset (f r)) rs)"
    by (rule sum_list_perm [OF p])
  also have "\<dots> = mset (concat (map f rs))"
    by (simp add: mset_concat comp_def)
  finally show ?thesis .
qed

lemma chunk_loop_nonempty: "c \<in> set (chunk_loop array cnt i) \<Longrightarrow> c \<noteq> []"
proof (induction array cnt i rule: chunk_loop.induct)
  case (1 array cnt i)
  show ?case
  proof (cases "cnt = 0 \<or> \<not> i < length array")
    case True
    then have "chunk_loop array cnt i = []"
      by (subst chunk_loop.simps) auto
    with "1.prems" show ?thesis by simp
  next
    case False
    then have "chunk_loop array cnt i = slice array i (i + cnt) # chunk_loop array cnt (i + cnt)"
      by (subst chunk_loop.simps) auto
    with "1.prems" have "c = slice array i (i + cnt) \<or> c \<in> set (chunk_loop array cnt (i + cnt))"
      by auto
    then show ?thesis
    proof
      assume "c = slice array i (i + cnt)"
      with False show ?thesis by (simp add: slice_def)
    next
      assume "c \<in> set (chunk_loop array cnt (i + cnt))"
      with False "1.IH" show ?thesis by simp
    qed
  qed
qed

lemma us_chunk_nonempty: "c \<in> set (us_chunk array cnt) \<Longrightarrow> c \<noteq> []"
  using chunk_loop_nonempty [of c array "nat cnt" 0]
  by (auto simp: us_chunk_def split: if_splits)

lemma kept_counted: "count_of r \<noteq> 0 \<Longrightarrow> output' r = Arr ys \<Longrightarrow> kept r = ys"
  by (simp add: kept_def)

lemma map_kept_counted:
  "map output' rs = map Arr yss \<Longrightarrow> \<forall>r\<in>set rs. count_of r \<noteq> 0 \<Longrightarrow> map kept rs = yss"
proof (induction rs arbitrary: yss)
  case Nil
  then show ?case by simp
next
  case (Cons r rs)
  then obtain ys yss' where y: "yss = ys # yss'" by (cases yss) auto
  with Cons show ?case by (simp add: kept_counted)
qed

lemma outputs_are_arrays: "map output' rs = map Arr yss \<Longrightarrow> \<forall>r\<in>set rs. \<exists>ys. output' r = Arr ys"
proof (induction rs arbitrary: yss)
  case Nil
  then show ?case by simp
next
  case (Cons r rs)
  then obtain ys yss' where y: "yss = ys # yss'" by (cases yss) auto
  with Cons show ?case by auto
qed

lemma map_nth_upt: "map (\<lambda>i. f (rs ! i)) [0..<length rs] = map f rs"
  by (simp add: map_nth map_equality_iff)

lemma sum_int_lengths: "sum_list (map (\<lambda>ch. int (length ch)) xss) = int (length (concat xss))"
  by (induction xss) auto

text \<open>
  Claim C1, as amended.  In \<^verbatim>\<open>'array'\<close> mode, when every chunk's request is answered
  with an array and the jobs complete in any order (a permutation of the chunk indices):
  the returned \<^verbatim>\<open>ethCallCount\<close> is the sum of the counts the service reported, a
  missing count adding nothing; the returned array holds, each exactly once, the outputs
  of the chunks whose reported count is not zero, and nothing of a chunk whose count is
  zero or missing.  When the chunk length is at least 1 and the service reports for each
  chunk a count equal to the chunk's length, the total equals the number of descriptors
  submitted and every chunk's output appears exactly once.
\<close>

theorem POST_counts_and_outputs:
  assumes ct: "chunk_test options = Inr (Some (opts, c, xs))"
    and arr: "combine c = ''array''"
    and net: "map (\<lambda>ch. net env (endpoint, chunk_opts opts c ch)) (us_chunk xs (chunk_length c)) = map Inr rs"
    and outs: "map output' rs = map Arr yss"
    and perm: "mset (completion env (length rs)) = mset [0..<length rs]"
  shows "\<exists>ys. snd (POST env endpoint options) =
            Inr \<lparr>ethCallCount = Some (sum_list (map count_of rs)), output' = Arr ys\<rparr>
          \<and> mset ys = mset (concat (map kept rs))
          \<and> (1 \<le> chunk_length c \<and> map count_of rs = map (\<lambda>ch. int (length ch)) (us_chunk xs (chunk_length c))
               \<longrightarrow> sum_list (map count_of rs) = int (length xs) \<and> mset ys = mset (concat yss))"
proof -
  let ?ord = "completion env (length rs)"
  let ?ys = "concat (map (\<lambda>i. kept (rs ! i)) ?ord)"
  have "set ?ord = set [0..<length rs]" using perm by (rule mset_eq_setD)
  then have sub: "set ?ord \<subseteq> {0..<length rs}" by simp
  have r: "snd (POST env endpoint options) =
      Inr \<lparr>ethCallCount = Some (sum_list (map (\<lambda>i. count_of (rs ! i)) ?ord)), output' = Arr ?ys\<rparr>"
    by (rule POST_array_resolves [OF ct arr net outputs_are_arrays [OF outs] sub])
  have s: "sum_list (map (\<lambda>i. count_of (rs ! i)) ?ord) = sum_list (map count_of rs)"
    by (rule sum_list_perm [OF perm])
  have m: "mset ?ys = mset (concat (map kept rs))"
    by (rule mset_concat_perm [OF perm])
  have h: "sum_list (map count_of rs) = int (length xs) \<and> mset ?ys = mset (concat yss)"
    if l: "1 \<le> chunk_length c"
      and e: "map count_of rs = map (\<lambda>ch. int (length ch)) (us_chunk xs (chunk_length c))"
  proof -
    have "sum_list (map (\<lambda>ch. int (length ch)) (us_chunk xs (chunk_length c)))
        = int (length (concat (us_chunk xs (chunk_length c))))"
      by (rule sum_int_lengths)
    then have t: "sum_list (map count_of rs) = int (length xs)"
      using e l by (simp add: us_chunk_concat)
    have "\<forall>r\<in>set rs. count_of r \<noteq> 0"
    proof
      fix r assume "r \<in> set rs"
      then have "count_of r \<in> set (map count_of rs)" by simp
      then have "count_of r \<in> set (map (\<lambda>ch. int (length ch)) (us_chunk xs (chunk_length c)))"
        by (simp only: e)
      then obtain ch where "ch \<in> set (us_chunk xs (chunk_length c))" "count_of r = int (length ch)"
        by auto
      then show "count_of r \<noteq> 0" using us_chunk_nonempty [of ch xs "chunk_length c"] by simp
    qed
    then have "map kept rs = yss" by (rule map_kept_counted [OF outs])
    with m t show ?thesis by simp
  qed
  show ?thesis
    using r s m h by (intro exI [of _ ?ys]) simp
qed

lemma admissible_one_in_order:
  assumes "admissible 1 n ord"
  shows "ord = [0..<n]"
proof -
  from assms have m: "mset ord = mset [0..<n]" and a: "\<forall>p\<in>set [0..<n]. ord ! p < p + 1"
    by (simp_all add: admissible_def list_all_iff)
  have b: "ord ! p \<le> p" if "p < n" for p
  proof -
    from that have "p \<in> set [0..<n]" by simp
    with a have "ord ! p < p + 1" by blast
    then show ?thesis by simp
  qed
  from m have l: "length ord = n" by (metis length_upt mset_eq_length minus_nat.diff_0)
  from m have d: "distinct ord" by (metis distinct_upt mset_eq_imp_distinct_iff)
  have e: "ord ! p = p" if "p < n" for p
    using that
  proof (induction p rule: less_induct)
    case (less p)
    show ?case
    proof (rule ccontr)
      assume ne: "ord ! p \<noteq> p"
      with b [OF less.prems] have lt: "ord ! p < p" by simp
      then have "ord ! (ord ! p) = ord ! p" using less by simp
      with d l less.prems lt have "ord ! p = p"
        by (metis nth_eq_iff_index_eq less_trans)
      with ne show False by simp
    qed
  qed
  show ?thesis
    by (rule nth_equalityI) (simp_all add: l e)
qed

text \<open>
  When the jobs complete in chunk-index order, and every chunk's request is answered
  with an array and a count that is not zero, the combined output is the concatenation
  of the per-chunk outputs in chunk-index order.  By \<open>admissible_one_in_order\<close> that
  is the only completion order when at most one job runs at a time.
\<close>

lemma POST_concat_in_order:
  assumes ct: "chunk_test options = Inr (Some (opts, c, xs))"
    and arr: "combine c = ''array''"
    and net: "map (\<lambda>ch. net env (endpoint, chunk_opts opts c ch)) (us_chunk xs (chunk_length c)) = map Inr rs"
    and outs: "map output' rs = map Arr yss"
    and counted: "\<forall>r\<in>set rs. count_of r \<noteq> 0"
    and in_order: "completion env (length rs) = [0..<length rs]"
  shows "snd (POST env endpoint options) =
     Inr \<lparr>ethCallCount = Some (sum_list (map count_of rs)), output' = Arr (concat yss)\<rparr>"
proof -
  have sub: "set (completion env (length rs)) \<subseteq> {0..<length rs}"
    by (simp add: in_order)
  have "snd (POST env endpoint options) =
      Inr \<lparr>ethCallCount = Some (sum_list (map (\<lambda>i. count_of (rs ! i)) [0..<length rs])),
           output' = Arr (concat (map (\<lambda>i. kept (rs ! i)) [0..<length rs]))\<rparr>"
    using POST_array_resolves [OF ct arr net outputs_are_arrays [OF outs] sub]
    by (simp only: in_order)
  then show ?thesis
    by (simp only: map_nth_upt map_kept_counted [OF outs counted])
qed

lemma ex_chunks: "us_chunk [7, 8, 9 :: nat] 2 = [[7, 8], [9]]"
  by (simp add: us_chunk_def chunk_loop.simps slice_def)

lemma ex_chunk_test:
  "chunk_test (Some (ex_opts [7, 8, 9])) = Inr (Some (ex_opts [7, 8, 9], ex_cfg, [7, 8, 9]))"
  by (simp add: chunk_test_def ex_opts_def ex_cfg_def)

lemma ex_calls_chunk: "ex_calls (ep, chunk_opts (ex_opts xs) ex_cfg ch) = ch"
  by (simp add: ex_calls_def chunk_opts_def ex_opts_def ex_cfg_def)

lemma ex_counted_answers:
  "map (\<lambda>ch. ex_counted (''/abi/multiCall'', chunk_opts (ex_opts [7, 8, 9]) ex_cfg ch))
       (us_chunk [7, 8, 9] (chunk_length ex_cfg)) = map Inr ex_rs"
proof -
  have "chunk_length ex_cfg = 2" by (simp add: ex_cfg_def)
  then show ?thesis
    by (simp add: ex_chunks ex_counted_def ex_calls_chunk ex_rs_def)
qed

theorem POST_counts_and_outputs_witness:
  "chunk_test (Some (ex_opts [7, 8, 9])) = Inr (Some (ex_opts [7, 8, 9], ex_cfg, [7, 8, 9]))
    \<and> combine ex_cfg = ''array''
    \<and> map (\<lambda>ch. net ex_reversed (''/abi/multiCall'', chunk_opts (ex_opts [7, 8, 9]) ex_cfg ch))
          (us_chunk [7, 8, 9] (chunk_length ex_cfg)) = map Inr ex_rs
    \<and> map output' ex_rs = map Arr [[Num 7, Num 8], [Num 9]]
    \<and> mset (completion ex_reversed (length ex_rs)) = mset [0..<length ex_rs]
    \<and> (\<exists>ys. snd (POST ex_reversed ''/abi/multiCall'' (Some (ex_opts [7, 8, 9]))) =
              Inr \<lparr>ethCallCount = Some 3, output' = Arr ys\<rparr>
            \<and> mset ys = {#Num 7, Num 8, Num 9#})"
proof -
  have a: "combine ex_cfg = ''array''" by (simp add: ex_cfg_def)
  have n: "map (\<lambda>ch. net ex_reversed (''/abi/multiCall'', chunk_opts (ex_opts [7, 8, 9]) ex_cfg ch))
          (us_chunk [7, 8, 9] (chunk_length ex_cfg)) = map Inr ex_rs"
    using ex_counted_answers by (simp add: ex_reversed_def)
  have ou: "map output' ex_rs = map Arr [[Num 7, Num 8], [Num 9]]" by (simp add: ex_rs_def)
  have l: "length ex_rs = 2" by (simp add: ex_rs_def)
  have "[0..<2] = [0, Suc 0]" by (simp add: upt_rec)
  then have p: "mset (completion ex_reversed (length ex_rs)) = mset [0..<length ex_rs]"
    by (simp add: ex_reversed_def l)
  have s: "sum_list (map count_of ex_rs) = 3" by (simp add: ex_rs_def count_of_def)
  have k: "mset (concat (map kept ex_rs)) = {#Num 7, Num 8, Num 9#}"
    by (simp add: ex_rs_def kept_def count_of_def)
  from POST_counts_and_outputs [OF ex_chunk_test a n ou p, unfolded s k]
  obtain ys where "snd (POST ex_reversed ''/abi/multiCall'' (Some (ex_opts [7, 8, 9]))) =
              Inr \<lparr>ethCallCount = Some 3, output' = Arr ys\<rparr>" "mset ys = {#Num 7, Num 8, Num 9#}"
    by blast
  with ex_chunk_test a n ou p show ?thesis by blast
qed

lemma POST_concat_in_order_example:
  "chunk_test (Some (ex_opts [7, 8, 9])) = Inr (Some (ex_opts [7, 8, 9], ex_cfg, [7, 8, 9]))
    \<and> combine ex_cfg = ''array''
    \<and> map (\<lambda>ch. net ex_in_order (''/abi/multiCall'', chunk_opts (ex_opts [7, 8, 9]) ex_cfg ch))
          (us_chunk [7, 8, 9] (chunk_length ex_cfg)) = map Inr ex_rs
    \<and> map output' ex_rs = map Arr [[Num 7, Num 8], [Num 9]]
    \<and> list_all (\<lambda>r. count_of r \<noteq> 0) ex_rs
    \<and> completion ex_in_order (length ex_rs) = [0..<length ex_rs]
    \<and> snd (POST ex_in_order ''/abi/multiCall'' (Some (ex_opts [7, 8, 9]))) =
          Inr \<lparr>ethCallCount = Some 3, output' = Arr [Num 7, Num 8, Num 9]\<rparr>"
proof -
  have a: "combine ex_cfg = ''array''" by (simp add: ex_cfg_def)
  have n: "map (\<lambda>ch. net ex_in_order (''/abi/multiCall'', chunk_opts (ex_opts [7, 8, 9]) ex_cfg ch))
          (us_chunk [7, 8, 9] (chunk_length ex_cfg)) = map Inr ex_rs"
    using ex_counted_answers by (simp add: ex_in_order_def)
  have ou: "map output' ex_rs = map Arr [[Num 7, Num 8], [Num 9]]" by (simp add: ex_rs_def)
  have cn: "\<forall>r\<in>set ex_rs. count_of r \<noteq> 0" by (simp add: ex_rs_def count_of_def)
  have io: "completion ex_in_order (length ex_rs) = [0..<length ex_rs]" by (simp add: ex_in_order_def)
  have s: "sum_list (map count_of ex_rs) = 3" by (simp add: ex_rs_def count_of_def)
  from POST_concat_in_order [OF ex_chunk_test a n ou cn io] s
  have "snd (POST ex_in_order ''/abi/multiCall'' (Some (ex_opts [7, 8, 9]))) =
          Inr \<lparr>ethCallCount = Some 3, output' = Arr [Num 7, Num 8, Num 9]\<rparr>" by simp
  with ex_chunk_test a n ou cn io show ?thesis by (simp add: list_all_iff)
qed

lemma ex_direct_counted:
  "net env = ex_counted \<Longrightarrow>
     direct env ep (chunk_opts (ex_opts xs) ex_cfg ch) =
       ([(ep, chunk_opts (ex_opts xs) ex_cfg ch)],
        Inr \<lparr>ethCallCount = Some (int (length ch)), output' = Arr (map (\<lambda>n. Num (int n)) ch)\<rparr>)"
  by (simp add: direct_def ex_counted_def ex_calls_chunk)

lemma ex_direct_uncounted:
  "net env = ex_uncounted \<Longrightarrow>
     direct env ep (chunk_opts (ex_opts xs) ex_cfg ch) =
       ([(ep, chunk_opts (ex_opts xs) ex_cfg ch)],
        Inr \<lparr>ethCallCount = None, output' = Arr (map (\<lambda>n. Num (int n)) ch)\<rparr>)"
  by (simp add: direct_def ex_uncounted_def ex_calls_chunk)

text \<open>
  Claim C2 at two chunks whose jobs complete in reverse order, which the limiter allows
  when two jobs run at a time: the output of the second chunk comes first in the
  combined array, while the same chunks completing in chunk-index order give the
  concatenation in chunk-index order.
\<close>

theorem POST_output_in_completion_order:
  "admissible 2 2 (completion ex_reversed 2)
   \<and> snd (POST ex_reversed ''/abi/multiCall'' (Some (ex_opts [7, 8, 9]))) =
      Inr \<lparr>ethCallCount = Some 3, output' = Arr [Num 9, Num 7, Num 8]\<rparr>
   \<and> snd (POST ex_in_order ''/abi/multiCall'' (Some (ex_opts [7, 8, 9]))) =
      Inr \<lparr>ethCallCount = Some 3, output' = Arr [Num 7, Num 8, Num 9]\<rparr>"
proof -
  have c: "chunk_length ex_cfg = 2" "combine ex_cfg = ''array''" by (simp_all add: ex_cfg_def)
  have r: "net ex_reversed = ex_counted" "completion ex_reversed (Suc (Suc 0)) = [Suc 0, 0]"
    by (simp_all add: ex_reversed_def)
  have i: "net ex_in_order = ex_counted" "completion ex_in_order (Suc (Suc 0)) = [0, Suc 0]"
    by (simp_all add: ex_in_order_def)
  have 1: "snd (POST ex_reversed ''/abi/multiCall'' (Some (ex_opts [7, 8, 9]))) =
      Inr \<lparr>ethCallCount = Some 3, output' = Arr [Num 9, Num 7, Num 8]\<rparr>"
    by (simp add: POST_chunked [OF ex_chunk_test] c ex_chunks r ex_direct_counted
        processRequest_def acc0_def combined_def)
  have 2: "snd (POST ex_in_order ''/abi/multiCall'' (Some (ex_opts [7, 8, 9]))) =
      Inr \<lparr>ethCallCount = Some 3, output' = Arr [Num 7, Num 8, Num 9]\<rparr>"
    by (simp add: POST_chunked [OF ex_chunk_test] c ex_chunks i ex_direct_counted
        processRequest_def acc0_def combined_def)
  have 3: "admissible 2 2 (completion ex_reversed 2)"
    by (simp add: admissible_def ex_reversed_def upt_rec)
  from 1 2 3 show ?thesis by simp
qed

text \<open>
  Claim C1 as stated fails: three descriptors are submitted in two chunks, both requests
  are sent and answered with outputs but without a count, and the result reports zero
  calls and an empty array.
\<close>

theorem POST_uncounted_counterexample:
  "length [7, 8, 9 :: nat] = 3
   \<and> fst (POST ex_in_order_uncounted ''/abi/multiCall'' (Some (ex_opts [7, 8, 9]))) =
      [(''/abi/multiCall'', chunk_opts (ex_opts [7, 8, 9]) ex_cfg [7, 8]),
       (''/abi/multiCall'', chunk_opts (ex_opts [7, 8, 9]) ex_cfg [9])]
   \<and> snd (POST ex_in_order_uncounted ''/abi/multiCall'' (Some (ex_opts [7, 8, 9]))) =
      Inr \<lparr>ethCallCount = Some 0, output' = Arr []\<rparr>"
proof -
  have c: "chunk_length ex_cfg = 2" "combine ex_cfg = ''array''" by (simp_all add: ex_cfg_def)
  have i: "net ex_in_order_uncounted = ex_uncounted"
    "completion ex_in_order_uncounted (Suc (Suc 0)) = [0, Suc 0]"
    by (simp_all add: ex_in_order_uncounted_def)
  show ?thesis
    by (simp add: POST_chunked [OF ex_chunk_test] c ex_chunks i ex_direct_uncounted
        processRequest_def acc0_def combined_def)
qed

lemma map_filter_cong_set:
  "(\<And>x. x \<in> set xs \<Longrightarrow> f x = g x) \<Longrightarrow> List.map_filter f xs = List.map_filter g xs"
  by (induction xs) (auto simp: List.map_filter_simps split: option.splits)

lemma map_of_pick:
  "map_of (pick obj ks) k = (if k \<in> set ks then map_of obj k else None)"
  unfolding pick_def
  by (induction ks) (auto simp: List.map_filter_simps split: option.splits)

lemma pick_idem: "pick (pick obj ks) ks = pick obj ks"
proof -
  have "List.map_filter (\<lambda>k. map_option (Pair k) (map_of (pick obj ks) k)) ks
      = List.map_filter (\<lambda>k. map_option (Pair k) (map_of obj k)) ks"
    by (rule map_filter_cong_set) (simp add: map_of_pick)
  then show ?thesis by (simp add: pick_def)
qed

lemma maybePreSerializeAxiosError_idem:
  "maybePreSerializeAxiosError (maybePreSerializeAxiosError e) = maybePreSerializeAxiosError e"
  by (cases "response e") (simp_all add: maybePreSerializeAxiosError_def pick_idem)

lemma maybePreSerializeAxiosError_no_response:
  "response e = None \<Longrightarrow> maybePreSerializeAxiosError e = e"
  by (simp add: maybePreSerializeAxiosError_def)

text \<open>
  Claim C3, as amended.  When the request of one chunk fails, \<^verbatim>\<open>POST\<close> rejects and
  returns no combined result.  When every job that completed before the failing one was
  answered and accepted, the rejection is the failing request's error passed through
  \<^verbatim>\<open>maybePreSerializeAxiosError\<close>: the error itself when it carries no
  \<^verbatim>\<open>response\<close>.
\<close>

theorem POST_chunk_failure:
  assumes ct: "chunk_test options = Inr (Some (opts, c, xs))"
    and i: "i < length (us_chunk xs (chunk_length c))"
    and fails: "net env (endpoint, chunk_opts opts c (us_chunk xs (chunk_length c) ! i)) = Inl e"
    and ord: "completion env (length (us_chunk xs (chunk_length c))) = pre @ i # post"
  shows "(\<exists>e'. snd (POST env endpoint options) = Inl e')
    \<and> (list_all (\<lambda>j. j < length (us_chunk xs (chunk_length c))
            \<and> resolves env (combine c) endpoint (chunk_opts opts c (us_chunk xs (chunk_length c) ! j))) pre
         \<longrightarrow> snd (POST env endpoint options) = Inl (maybePreSerializeAxiosError e))
    \<and> (response e = None \<longrightarrow> maybePreSerializeAxiosError e = e)"
proof -
  let ?chunks = "us_chunk xs (chunk_length c)"
  let ?calls = "map (\<lambda>ch. direct env endpoint (chunk_opts opts c ch)) ?chunks"
  let ?q = "[(endpoint, chunk_opts opts c (?chunks ! i))]"
  have ci: "?calls ! i = (?q, Inl (maybePreSerializeAxiosError e))"
    using i fails by (simp add: direct_def)
  have il: "i < length ?calls" using i by simp
  have 1: "\<exists>e'. snd (POST env endpoint options) = Inl e'"
  proof -
    have "i \<in> set (pre @ i # post)" by simp
    from run_jobs_some_reject [OF this il ci, of "combine c" "[]" acc0]
    obtain e' where "snd (run_jobs (combine c) ?calls (pre @ i # post) ([], acc0)) = Inl e'" by blast
    then show ?thesis
      by (cases "run_jobs (combine c) ?calls (pre @ i # post) ([], acc0)")
         (auto simp: POST_chunked [OF ct] ord)
  qed
  have 2: "snd (POST env endpoint options) = Inl (maybePreSerializeAxiosError e)"
    if ok: "list_all (\<lambda>j. j < length ?chunks
            \<and> resolves env (combine c) endpoint (chunk_opts opts c (?chunks ! j))) pre"
  proof -
    define R where "R j = projr (net env (endpoint, chunk_opts opts c (?chunks ! j)))" for j
    define Y where "Y j = projr (contribution (combine c) (R j))" for j
    define Q where "Q j = [(endpoint, chunk_opts opts c (?chunks ! j))]" for j
    have pre: "\<forall>j\<in>set pre. j < length ?calls \<and> ?calls ! j = (Q j, Inr (R j))
              \<and> contribution (combine c) (R j) = Inr (Y j)"
    proof
      fix j assume "j \<in> set pre"
      with ok have j: "j < length ?chunks"
        and r: "resolves env (combine c) endpoint (chunk_opts opts c (?chunks ! j))"
        by (auto simp: list_all_iff)
      from r have n: "net env (endpoint, chunk_opts opts c (?chunks ! j)) = Inr (R j)"
        by (auto simp: resolves_def R_def split: sum.splits)
      with r have "contribution (combine c) (R j) = Inr (Y j)"
        by (auto simp: resolves_def Y_def split: sum.splits)
      with j n show "j < length ?calls \<and> ?calls ! j = (Q j, Inr (R j))
              \<and> contribution (combine c) (R j) = Inr (Y j)"
        by (simp add: direct_def Q_def)
    qed
    have "snd (run_jobs (combine c) ?calls (pre @ i # post) ([], acc0))
        = Inl (maybePreSerializeAxiosError e)"
      by (rule run_jobs_first_reject [OF pre il ci])
    then show ?thesis
      by (cases "run_jobs (combine c) ?calls (pre @ i # post) ([], acc0)")
         (auto simp: POST_chunked [OF ct] ord maybePreSerializeAxiosError_idem)
  qed
  show ?thesis
    using 1 2 maybePreSerializeAxiosError_no_response by blast
qed

text \<open>
  Claim C8, as amended.  For an empty list and a chunk length that is not negative,
  \<^verbatim>\<open>POST\<close> does not chunk: it sends exactly one request, carrying the empty list, and
  returns that request's answer, or rejects with its error passed through
  \<^verbatim>\<open>maybePreSerializeAxiosError\<close>.
\<close>

theorem POST_empty_list:
  assumes "chunk opts = Some c"
    and "map_of (lists opts) (param c) = Some []"
    and "0 \<le> chunk_length c"
  shows "POST env endpoint (Some opts) =
     ([(endpoint, Some opts)],
      (case net env (endpoint, Some opts) of
         Inl e \<Rightarrow> Inl (maybePreSerializeAxiosError e)
       | Inr data \<Rightarrow> Inr data))"
proof -
  have "chunk_test (Some opts) = Inr None"
    using assms by (simp add: chunk_test_def)
  then show ?thesis by (rule POST_direct)
qed

lemma ex_failing_answers:
  "net (ex_failing e) (ep, chunk_opts (ex_opts xs) ex_cfg [7, 8]) =
     Inr \<lparr>ethCallCount = Some 2, output' = Arr [Num 7, Num 8]\<rparr>"
  "net (ex_failing e) (ep, chunk_opts (ex_opts xs) ex_cfg [9]) = Inl e"
  by (simp_all add: ex_failing_def ex_calls_chunk ex_counted_def)

theorem POST_chunk_failure_witness:
  "chunk_test (Some (ex_opts [7, 8, 9])) = Inr (Some (ex_opts [7, 8, 9], ex_cfg, [7, 8, 9]))
    \<and> 1 < length (us_chunk [7, 8, 9 :: nat] (chunk_length ex_cfg))
    \<and> net (ex_failing ex_network_error)
          (''/abi/multiCall'',
           chunk_opts (ex_opts [7, 8, 9]) ex_cfg (us_chunk [7, 8, 9] (chunk_length ex_cfg) ! 1))
        = Inl ex_network_error
    \<and> completion (ex_failing ex_network_error) (length (us_chunk [7, 8, 9 :: nat] (chunk_length ex_cfg)))
        = [0] @ 1 # []
    \<and> list_all (\<lambda>j. j < length (us_chunk [7, 8, 9 :: nat] (chunk_length ex_cfg))
            \<and> resolves (ex_failing ex_network_error) (combine ex_cfg) ''/abi/multiCall''
                (chunk_opts (ex_opts [7, 8, 9]) ex_cfg (us_chunk [7, 8, 9] (chunk_length ex_cfg) ! j))) [0]
    \<and> response ex_network_error = None
    \<and> snd (POST (ex_failing ex_network_error) ''/abi/multiCall'' (Some (ex_opts [7, 8, 9])))
        = Inl ex_network_error"
proof -
  have c: "chunk_length ex_cfg = 2" "combine ex_cfg = ''array''" by (simp_all add: ex_cfg_def)
  have i: "1 < length (us_chunk [7, 8, 9 :: nat] (chunk_length ex_cfg))"
    by (simp add: c ex_chunks)
  have f: "net (ex_failing ex_network_error)
          (''/abi/multiCall'',
           chunk_opts (ex_opts [7, 8, 9]) ex_cfg (us_chunk [7, 8, 9] (chunk_length ex_cfg) ! 1))
        = Inl ex_network_error"
    by (simp add: c ex_chunks ex_failing_answers)
  have o: "completion (ex_failing ex_network_error) (length (us_chunk [7, 8, 9 :: nat] (chunk_length ex_cfg)))
        = [0] @ 1 # []"
    by (simp add: c ex_chunks ex_failing_def)
  have p: "list_all (\<lambda>j. j < length (us_chunk [7, 8, 9 :: nat] (chunk_length ex_cfg))
            \<and> resolves (ex_failing ex_network_error) (combine ex_cfg) ''/abi/multiCall''
                (chunk_opts (ex_opts [7, 8, 9]) ex_cfg (us_chunk [7, 8, 9] (chunk_length ex_cfg) ! j))) [0]"
    by (simp add: c ex_chunks resolves_def ex_failing_answers contribution_def count_of_def)
  have n: "response ex_network_error = None" by (simp add: ex_network_error_def Error_def)
  from POST_chunk_failure [OF ex_chunk_test i f o] p n
  have "snd (POST (ex_failing ex_network_error) ''/abi/multiCall'' (Some (ex_opts [7, 8, 9])))
        = Inl ex_network_error" by simp
  with ex_chunk_test i f o p n show ?thesis by blast
qed

text \<open>
  Claim C3 as stated fails: an HTTP failure of one chunk reaches the caller with its
  \<^verbatim>\<open>response\<close> and \<^verbatim>\<open>config\<close> reduced to three entries each and its
  \<^verbatim>\<open>request\<close> deleted.
\<close>

theorem POST_error_trimmed_counterexample:
  "net (ex_failing ex_http_error) (''/abi/multiCall'', chunk_opts (ex_opts [7, 8, 9]) ex_cfg [9])
      = Inl ex_http_error
   \<and> snd (POST (ex_failing ex_http_error) ''/abi/multiCall'' (Some (ex_opts [7, 8, 9])))
      = Inl ex_trimmed_error
   \<and> ex_trimmed_error \<noteq> ex_http_error"
proof -
  have c: "chunk_length ex_cfg = 2" "combine ex_cfg = ''array''" by (simp_all add: ex_cfg_def)
  have o: "completion (ex_failing ex_http_error) (Suc (Suc 0)) = [0, Suc 0]"
    by (simp add: ex_failing_def)
  have d: "direct (ex_failing ex_http_error) ''/abi/multiCall'' (chunk_opts (ex_opts [7, 8, 9]) ex_cfg [7, 8])
      = ([(''/abi/multiCall'', chunk_opts (ex_opts [7, 8, 9]) ex_cfg [7, 8])],
         Inr \<lparr>ethCallCount = Some 2, output' = Arr [Num 7, Num 8]\<rparr>)"
    "direct (ex_failing ex_http_error) ''/abi/multiCall'' (chunk_opts (ex_opts [7, 8, 9]) ex_cfg [9])
      = ([(''/abi/multiCall'', chunk_opts (ex_opts [7, 8, 9]) ex_cfg [9])],
         Inl (maybePreSerializeAxiosError ex_http_error))"
    by (simp_all add: direct_def ex_failing_answers)
  have t: "maybePreSerializeAxiosError ex_http_error = ex_trimmed_error"
    by (simp add: maybePreSerializeAxiosError_def ex_http_error_def ex_trimmed_error_def pick_def
        List.map_filter_simps)
  have t2: "maybePreSerializeAxiosError ex_trimmed_error = ex_trimmed_error"
    using maybePreSerializeAxiosError_idem [of ex_http_error] by (simp add: t)
  have "snd (POST (ex_failing ex_http_error) ''/abi/multiCall'' (Some (ex_opts [7, 8, 9])))
      = Inl ex_trimmed_error"
    by (simp add: POST_chunked [OF ex_chunk_test] c ex_chunks o d t t2
        processRequest_def acc0_def)
  moreover have "ex_trimmed_error \<noteq> ex_http_error"
    by (simp add: ex_trimmed_error_def ex_http_error_def)
  ultimately show ?thesis by (simp add: ex_failing_answers)
qed

theorem POST_empty_list_witness:
  "chunk (ex_opts []) = Some ex_cfg
    \<and> map_of (lists (ex_opts [])) (param ex_cfg) = Some []
    \<and> 0 \<le> chunk_length ex_cfg
    \<and> POST ex_in_order ''/abi/multiCall'' (Some (ex_opts [])) =
        ([(''/abi/multiCall'', Some (ex_opts []))], Inr \<lparr>ethCallCount = Some 0, output' = Arr []\<rparr>)"
proof -
  have a: "chunk (ex_opts []) = Some ex_cfg" by (simp add: ex_opts_def)
  have b: "map_of (lists (ex_opts [])) (param ex_cfg) = Some []" by (simp add: ex_opts_def ex_cfg_def)
  have c: "0 \<le> chunk_length ex_cfg" by (simp add: ex_cfg_def)
  have "net ex_in_order (''/abi/multiCall'', Some (ex_opts [])) = Inr \<lparr>ethCallCount = Some 0, output' = Arr []\<rparr>"
    by (simp add: ex_in_order_def ex_counted_def ex_calls_def ex_opts_def)
  with POST_empty_list [OF a b c, of ex_in_order "''/abi/multiCall''"] a b c show ?thesis by simp
qed

text \<open>Claim C8 as stated fails: for the empty list one request goes to the network.\<close>

theorem POST_empty_list_counterexample:
  "fst (POST ex_in_order ''/abi/multiCall'' (Some (ex_opts []))) = [(''/abi/multiCall'', Some (ex_opts []))]
   \<and> length (fst (POST ex_in_order ''/abi/multiCall'' (Some (ex_opts [])))) = 1"
proof -
  have "chunk_test (Some (ex_opts [])) = Inr None"
    by (simp add: chunk_test_def ex_opts_def ex_cfg_def)
  then show ?thesis by (simp add: POST_direct)
qed

lemma object_keys_length: "length (object_keys obj) = length obj"
  using sum_length_filter_compl [of is_index "map fst obj"]
  by (simp add: object_keys_def)

lemma and_then_Inr:
  "snd m = Inr a \<Longrightarrow> and_then m f = (fst m @ fst (f a), snd (f a))"
  by (cases m) (auto simp: and_then_def split: prod.splits)

lemma and_then_Inl:
  "snd m = Inl e \<Longrightarrow> and_then m f = (fst m, Inl e)"
  by (cases m) (auto simp: and_then_def)

text \<open>
  Claim C6.  \<^verbatim>\<open>tvl\<close> sends no request after the balances are accumulated, rejects
  when their accumulation rejects, and otherwise returns exactly the one-entry mapping of
  the zero address to the number 0 when the accumulated mapping has no entries, and the
  accumulated mapping itself when it has any.
\<close>

theorem tvl_sentinel:
  "fst (tvl w timestamp block) = fst (tvl_balances w timestamp block)
   \<and> snd (tvl w timestamp block) =
       (case snd (tvl_balances w timestamp block) of
          Inl e \<Rightarrow> Inl e
        | Inr balances \<Rightarrow> Inr (if length balances = 0 then [(zero_address, Num 0)] else balances))"
proof (cases "snd (tvl_balances w timestamp block)")
  case (Inl e)
  then show ?thesis by (simp add: tvl_def and_then_Inl)
next
  case (Inr balances)
  then show ?thesis
    by (simp add: tvl_def and_then_Inr local_step_def or_sentinel_def object_keys_length)
qed

lemma abi_call_direct:
  "abi_call env opts =
     ([(''/abi/call'', Some \<lparr>lists = [], chunk = None, rest = opts\<rparr>)],
      (case net env (''/abi/call'', Some \<lparr>lists = [], chunk = None, rest = opts\<rparr>) of
         Inl e \<Rightarrow> Inl (maybePreSerializeAxiosError e)
       | Inr data \<Rightarrow> Inr data))"
proof -
  have "chunk_test (Some \<lparr>lists = [], chunk = None, rest = opts\<rparr>) = Inr None"
    by (simp add: chunk_test_def)
  from POST_direct [OF this] show ?thesis by (simp only: abi_call_def)
qed

text \<open>
  Claim C9.  When the supported tokens have been read and the factory's
  \<^verbatim>\<open>allPairsLength\<close> call answers with a \<^verbatim>\<open>null\<close> output, \<^verbatim>\<open>tvl\<close> rejects with
  the error \<^verbatim>\<open>allPairsLength() failed\<close>; the requests it has sent are the token list
  and that one call, sent once, and nothing after it.
\<close>

theorem tvl_null_pair_length:
  assumes "tokens_response w = Inr data"
    and "supported_of data = Inr supportedTokens"
    and "net (api w) (''/abi/call'',
            Some \<lparr>lists = [], chunk = None, rest = polygon ''allPairsLength'' (Str FACTORY) block\<rparr>) = Inr r"
    and "output' r = Null"
  shows "tvl w timestamp block =
     ([(''/util/supportedTokens'', None),
       (''/abi/call'', Some \<lparr>lists = [], chunk = None, rest = polygon ''allPairsLength'' (Str FACTORY) block\<rparr>)],
      Inl (Error ''allPairsLength() failed''))"
  using assms
  by (simp add: tvl_def tvl_balances_def util_supportedTokens_def and_then_def local_step_def
      abi_call_direct)

lemma lower_char_idem: "lower_char (lower_char c) = lower_char c"
  by (auto simp: lower_char_def Let_def)

lemma toLowerCase_idem: "toLowerCase (toLowerCase s) = toLowerCase s"
  by (simp add: toLowerCase_def lower_char_idem)

lemma toLowerCase_fixed: "list_all (\<lambda>c. lower_char c = c) (toLowerCase s)"
  by (simp add: toLowerCase_def list_all_iff lower_char_idem)

lemma output_toLowerCase_lower:
  "output_toLowerCase t = Inr a \<Longrightarrow> list_all (\<lambda>c. lower_char c = c) a"
  by (auto simp: output_toLowerCase_def toLowerCase_fixed split: sum.splits jsv.splits)

lemma member_filter_lower:
  "output_toLowerCase t = Inr a \<Longrightarrow> lower_case_entry (Str a)"
  using output_toLowerCase_lower [of t a] by (simp add: lower_case_entry_def)

lemma add_token0Addresses_filter:
  "add_token0Addresses (filter lower_case_entry supportedTokens) pairAddresses ts i tokenPairs
     = add_token0Addresses supportedTokens pairAddresses ts i tokenPairs"
proof (induction ts arbitrary: i tokenPairs)
  case Nil
  show ?case by simp
next
  case (Cons t ts)
  show ?case
  proof (cases "output_toLowerCase t")
    case (Inl e)
    then show ?thesis by simp
  next
    case (Inr a)
    then show ?thesis by (simp add: member_filter_lower [OF Inr] Cons.IH)
  qed
qed

lemma add_token1Addresses_filter:
  "add_token1Addresses (filter lower_case_entry supportedTokens) pairs pairAddresses ts i tokenPairs
     = add_token1Addresses supportedTokens pairs pairAddresses ts i tokenPairs"
proof (induction ts arbitrary: i tokenPairs)
  case Nil
  show ?case by simp
next
  case (Cons t ts)
  show ?case
  proof (cases "output_toLowerCase t")
    case (Inl e)
    then show ?thesis by simp
  next
    case (Inr a)
    then show ?thesis by (simp add: member_filter_lower [OF Inr] Cons.IH)
  qed
qed

lemma tokenPairs_of_filter:
  "tokenPairs_of (filter lower_case_entry supportedTokens) pairs pairAddresses t0 t1
     = tokenPairs_of supportedTokens pairs pairAddresses t0 t1"
  by (simp add: tokenPairs_of_def add_token0Addresses_filter add_token1Addresses_filter
      split: sum.splits)

lemma keys_obj_set: "fst ` set (obj_set kvs k v) = insert k (fst ` set kvs)"
proof (induction kvs)
  case Nil
  show ?case by simp
next
  case (Cons p kvs)
  obtain a b where p: "p = (a, b)" by (cases p) auto
  show ?case
  proof (cases "a = k")
    case True
    with p show ?thesis by simp
  next
    case False
    with p Cons.IH show ?thesis by (simp add: insert_commute)
  qed
qed

lemma add_token0Addresses_keys:
  "map output_toLowerCase ts = map Inr ls \<Longrightarrow>
     \<exists>tokenPairs'. add_token0Addresses supportedTokens pairAddresses ts i tokenPairs = Inr tokenPairs'
       \<and> set (map fst tokenPairs')
           = set (map fst tokenPairs) \<union> set (written_keys supportedTokens pairAddresses i ls)"
proof (induction ts arbitrary: ls i tokenPairs)
  case Nil
  then show ?case by simp
next
  case (Cons t ts)
  then obtain a ls' where ls: "ls = a # ls'" and t: "output_toLowerCase t = Inr a"
    and r: "map output_toLowerCase ts = map Inr ls'"
    by (cases ls) auto
  show ?case
  proof (cases "Str a \<in> set supportedTokens")
    case True
    from Cons.IH [OF r, of "Suc i" "obj_set tokenPairs (key_at pairAddresses i)
        \<lparr>token0Address = Str a, token1Address = Undef\<rparr>"]
    show ?thesis using t ls True by (auto simp: keys_obj_set)
  next
    case False
    from Cons.IH [OF r, of "Suc i" tokenPairs]
    show ?thesis using t ls False by auto
  qed
qed

lemma add_token1Addresses_keys:
  "map output_toLowerCase ts = map Inr ls \<Longrightarrow>
     \<exists>tokenPairs'. add_token1Addresses supportedTokens pairs pairAddresses ts i tokenPairs = Inr tokenPairs'
       \<and> set (map fst tokenPairs')
           = set (map fst tokenPairs) \<union> set (written_keys supportedTokens pairAddresses i ls)"
proof (induction ts arbitrary: ls i tokenPairs)
  case Nil
  then show ?case by simp
next
  case (Cons t ts)
  then obtain a ls' where ls: "ls = a # ls'" and t: "output_toLowerCase t = Inr a"
    and r: "map output_toLowerCase ts = map Inr ls'"
    by (cases ls) auto
  show ?case
  proof (cases "Str a \<in> set supportedTokens")
    case True
    from Cons.IH [OF r, of "Suc i" "obj_set tokenPairs (key_at pairAddresses i)
        \<lparr>token0Address = spread_field (array_prop pairs (key_at pairAddresses i)) ''token0Address'',
         token1Address = Str a\<rparr>"]
    show ?thesis using t ls True by (auto simp: keys_obj_set)
  next
    case False
    from Cons.IH [OF r, of "Suc i" tokenPairs]
    show ?thesis using t ls False by auto
  qed
qed

lemma written_keys_set:
  "set (written_keys supportedTokens pairAddresses i ls)
     = {key_at pairAddresses (i + j) | j. j < length ls \<and> Str (ls ! j) \<in> set supportedTokens}"
proof (induction ls arbitrary: i)
  case Nil
  show ?case by simp
next
  case (Cons a ls)
  have "{key_at pairAddresses (i + j) | j. j < length (a # ls) \<and> Str ((a # ls) ! j) \<in> set supportedTokens}
      = (if Str a \<in> set supportedTokens then {key_at pairAddresses i} else {})
        \<union> {key_at pairAddresses (Suc i + j) | j. j < length ls \<and> Str (ls ! j) \<in> set supportedTokens}"
    (is "?L = ?R")
  proof
    show "?L \<subseteq> ?R"
    proof
      fix k assume "k \<in> ?L"
      then obtain j where j: "k = key_at pairAddresses (i + j)" "j < length (a # ls)"
        "Str ((a # ls) ! j) \<in> set supportedTokens" by blast
      show "k \<in> ?R"
      proof (cases j)
        case 0
        with j show ?thesis by simp
      next
        case (Suc j')
        with j have "k = key_at pairAddresses (Suc i + j')" "j' < length ls"
          "Str (ls ! j') \<in> set supportedTokens" by simp_all
        then show ?thesis by blast
      qed
    qed
    show "?R \<subseteq> ?L"
    proof
      fix k assume "k \<in> ?R"
      then consider "Str a \<in> set supportedTokens" "k = key_at pairAddresses i"
        | j' where "k = key_at pairAddresses (Suc i + j')" "j' < length ls"
            "Str (ls ! j') \<in> set supportedTokens"
        by (auto split: if_splits)
      then show "k \<in> ?L"
      proof cases
        case 1
        then have "k = key_at pairAddresses (i + 0) \<and> 0 < length (a # ls)
            \<and> Str ((a # ls) ! 0) \<in> set supportedTokens" by simp
        then show ?thesis by blast
      next
        case 2
        then have "k = key_at pairAddresses (i + Suc j') \<and> Suc j' < length (a # ls)
            \<and> Str ((a # ls) ! Suc j') \<in> set supportedTokens" by simp
        then show ?thesis by blast
      qed
    qed
  qed
  then show ?case using Cons.IH [of "Suc i"] by simp
qed

lemma add_token0Addresses_cong:
  "map output_toLowerCase ts = map output_toLowerCase ts' \<Longrightarrow>
     add_token0Addresses supportedTokens pairAddresses ts i tokenPairs
       = add_token0Addresses supportedTokens pairAddresses ts' i tokenPairs"
proof (induction ts arbitrary: ts' i tokenPairs)
  case Nil
  then show ?case by simp
next
  case (Cons t ts)
  then obtain t' ts'' where "ts' = t' # ts''" "output_toLowerCase t = output_toLowerCase t'"
    "map output_toLowerCase ts = map output_toLowerCase ts''"
    by (cases ts') auto
  then show ?case using Cons.IH [of ts''] by (simp split: sum.splits)
qed

lemma add_token1Addresses_cong:
  "map output_toLowerCase ts = map output_toLowerCase ts' \<Longrightarrow>
     add_token1Addresses supportedTokens pairs pairAddresses ts i tokenPairs
       = add_token1Addresses supportedTokens pairs pairAddresses ts' i tokenPairs"
proof (induction ts arbitrary: ts' i tokenPairs)
  case Nil
  then show ?case by simp
next
  case (Cons t ts)
  then obtain t' ts'' where "ts' = t' # ts''" "output_toLowerCase t = output_toLowerCase t'"
    "map output_toLowerCase ts = map output_toLowerCase ts''"
    by (cases ts') auto
  then show ?case using Cons.IH [of ts''] by (simp split: sum.splits)
qed

text \<open>
  Claim C7, as amended.  For all pairs at once: when every token result has a string
  output, the two loops succeed, and the pair addresses that receive an entry are exactly
  those at whose position the lower-cased token0 or token1 address is an element of the
  allow-list as supplied.  The allow-list is not normalised: removing every entry that is
  not a string free of upper-case letters changes nothing, so such an entry has no
  effect.  The letter case of the on-chain addresses does not matter: token results with
  the same lower-cased outputs give the same pair records.
\<close>

theorem token_membership:
  assumes t0: "map output_toLowerCase token0s = map Inr ls0"
    and t1: "map output_toLowerCase token1s = map Inr ls1"
  shows "(\<exists>tokenPairs.
            tokenPairs_of supportedTokens pairs pairAddresses (Arr token0s) (Arr token1s) = Inr tokenPairs
          \<and> set (map fst tokenPairs) =
              {key_at pairAddresses i | i. i < length ls0 \<and> Str (ls0 ! i) \<in> set supportedTokens}
              \<union> {key_at pairAddresses i | i. i < length ls1 \<and> Str (ls1 ! i) \<in> set supportedTokens})
    \<and> tokenPairs_of (filter lower_case_entry supportedTokens) pairs pairAddresses (Arr token0s) (Arr token1s)
        = tokenPairs_of supportedTokens pairs pairAddresses (Arr token0s) (Arr token1s)
    \<and> (map output_toLowerCase token0s' = map Inr ls0 \<and> map output_toLowerCase token1s' = map Inr ls1
         \<longrightarrow> tokenPairs_of supportedTokens pairs pairAddresses (Arr token0s') (Arr token1s')
             = tokenPairs_of supportedTokens pairs pairAddresses (Arr token0s) (Arr token1s))"
proof -
  from add_token0Addresses_keys [OF t0, of supportedTokens pairAddresses 0 "[]"]
  obtain tp0 where a0: "add_token0Addresses supportedTokens pairAddresses token0s 0 [] = Inr tp0"
    and k0: "set (map fst tp0) = set (written_keys supportedTokens pairAddresses 0 ls0)"
    by auto
  from add_token1Addresses_keys [OF t1, of supportedTokens pairs pairAddresses 0 tp0]
  obtain tp1 where a1: "add_token1Addresses supportedTokens pairs pairAddresses token1s 0 tp0 = Inr tp1"
    and k1: "set (map fst tp1)
      = set (map fst tp0) \<union> set (written_keys supportedTokens pairAddresses 0 ls1)"
    by auto
  have r: "tokenPairs_of supportedTokens pairs pairAddresses (Arr token0s) (Arr token1s) = Inr tp1"
    by (simp add: tokenPairs_of_def a0 a1)
  have k: "set (map fst tp1) =
      {key_at pairAddresses i | i. i < length ls0 \<and> Str (ls0 ! i) \<in> set supportedTokens}
      \<union> {key_at pairAddresses i | i. i < length ls1 \<and> Str (ls1 ! i) \<in> set supportedTokens}"
    using k0 k1 written_keys_set [of supportedTokens pairAddresses 0] by simp
  have c: "tokenPairs_of supportedTokens pairs pairAddresses (Arr token0s') (Arr token1s')
             = tokenPairs_of supportedTokens pairs pairAddresses (Arr token0s) (Arr token1s)"
    if "map output_toLowerCase token0s' = map Inr ls0" "map output_toLowerCase token1s' = map Inr ls1"
  proof -
    have m0: "map output_toLowerCase token0s' = map output_toLowerCase token0s"
      and m1: "map output_toLowerCase token1s' = map output_toLowerCase token1s"
      using that t0 t1 by simp_all
    have e0: "add_token0Addresses supportedTokens pairAddresses token0s' 0 []
        = add_token0Addresses supportedTokens pairAddresses token0s 0 []"
      by (rule add_token0Addresses_cong [OF m0])
    have e1: "add_token1Addresses supportedTokens pairs pairAddresses token1s' 0 tp
        = add_token1Addresses supportedTokens pairs pairAddresses token1s 0 tp" for tp
      by (rule add_token1Addresses_cong [OF m1])
    show ?thesis
      by (simp add: tokenPairs_of_def e0 e1 split: sum.splits)
  qed
  show ?thesis using r k c tokenPairs_of_filter by blast
qed

lemma abi_multiCall_empty:
  "abi_multiCall env opts [] =
     ([(''/abi/multiCall'',
        Some \<lparr>lists = [(''calls'', [])],
              chunk = Some \<lparr>param = ''calls'', chunk_length = 5000, combine = ''array''\<rparr>,
              rest = opts\<rparr>)],
      (case net env (''/abi/multiCall'',
              Some \<lparr>lists = [(''calls'', [])],
                    chunk = Some \<lparr>param = ''calls'', chunk_length = 5000, combine = ''array''\<rparr>,
                    rest = opts\<rparr>) of
         Inl e \<Rightarrow> Inl (maybePreSerializeAxiosError e)
       | Inr data \<Rightarrow> Inr data))"
proof -
  have "chunk_test (Some \<lparr>lists = [(''calls'', [] :: call_desc list)],
              chunk = Some \<lparr>param = ''calls'', chunk_length = 5000, combine = ''array''\<rparr>,
              rest = opts\<rparr>) = Inr None"
    by (simp add: chunk_test_def)
  from POST_direct [OF this] show ?thesis by (simp only: abi_multiCall_def)
qed

lemma ex_tvl_balances:
  "snd (tvl_balances (ex_world (Num 0)) (Num 1602073800) (Num 100)) = Inr []"
  by (simp add: tvl_balances_def util_supportedTokens_def and_then_def local_step_def
      abi_call_direct abi_multiCall_empty ex_world_def ex_net_def polygon_def supported_of_def
      pairNums_of_def tokenPairs_of_def balanceCalls_of_def object_keys_def checked_chunks_def
      chunks_from.simps assert_equal_def)

theorem tvl_sentinel_witness:
  "snd (tvl_balances (ex_world (Num 0)) (Num 1602073800) (Num 100)) = Inr []
   \<and> snd (tvl (ex_world (Num 0)) (Num 1602073800) (Num 100))
       = Inr [(''0x0000000000000000000000000000000000000000'', Num 0)]"
  using tvl_sentinel [of "ex_world (Num 0)" "Num 1602073800" "Num 100"] ex_tvl_balances
  by (simp add: zero_address_def)

theorem tvl_null_pair_length_witness:
  "tokens_response (ex_world Null) = Inr (Arr [])
   \<and> supported_of (Arr []) = Inr []
   \<and> net (api (ex_world Null)) (''/abi/call'',
          Some \<lparr>lists = [], chunk = None, rest = polygon ''allPairsLength'' (Str FACTORY) (Num 100)\<rparr>)
       = Inr \<lparr>ethCallCount = Some 1, output' = Null\<rparr>
   \<and> output' \<lparr>ethCallCount = Some 1, output' = Null\<rparr> = Null
   \<and> tvl (ex_world Null) (Num 1602073800) (Num 100) =
       ([(''/util/supportedTokens'', None),
         (''/abi/call'',
          Some \<lparr>lists = [], chunk = None, rest = polygon ''allPairsLength'' (Str FACTORY) (Num 100)\<rparr>)],
        Inl (Error ''allPairsLength() failed''))"
proof -
  have a: "tokens_response (ex_world Null) = Inr (Arr [])" by (simp add: ex_world_def)
  have b: "supported_of (Arr []) = Inr []" by (simp add: supported_of_def)
  have c: "net (api (ex_world Null)) (''/abi/call'',
          Some \<lparr>lists = [], chunk = None, rest = polygon ''allPairsLength'' (Str FACTORY) (Num 100)\<rparr>)
       = Inr \<lparr>ethCallCount = Some 1, output' = Null\<rparr>"
    by (simp add: ex_world_def ex_net_def polygon_def)
  have d: "output' \<lparr>ethCallCount = Some 1, output' = Null\<rparr> = Null" by simp
  from tvl_null_pair_length [OF a b c d, of "Num 1602073800"] a b c d show ?thesis by blast
qed

theorem token_membership_witness:
  "map output_toLowerCase [ex_result ''0xAB'', ex_result ''0xee''] = map Inr [''0xab'', ''0xee'']
   \<and> map output_toLowerCase [ex_result ''0xff'', ex_result ''0xcd''] = map Inr [''0xff'', ''0xcd'']
   \<and> map output_toLowerCase [ex_result ''0xab'', ex_result ''0xEE''] = map Inr [''0xab'', ''0xee'']
   \<and> map output_toLowerCase [ex_result ''0xFF'', ex_result ''0xCd''] = map Inr [''0xff'', ''0xcd'']
   \<and> tokenPairs_of [Str ''0xab'', Str ''0xCD''] [ex_result ''0xP1'', ex_result ''0xP2''] [''0xp1'', ''0xp2'']
         (Arr [ex_result ''0xab'', ex_result ''0xEE'']) (Arr [ex_result ''0xFF'', ex_result ''0xCd''])
       = tokenPairs_of [Str ''0xab'', Str ''0xCD''] [ex_result ''0xP1'', ex_result ''0xP2''] [''0xp1'', ''0xp2'']
         (Arr [ex_result ''0xAB'', ex_result ''0xee'']) (Arr [ex_result ''0xff'', ex_result ''0xcd''])
   \<and> tokenPairs_of (filter lower_case_entry [Str ''0xab'', Str ''0xCD''])
         [ex_result ''0xP1'', ex_result ''0xP2''] [''0xp1'', ''0xp2'']
         (Arr [ex_result ''0xAB'', ex_result ''0xee'']) (Arr [ex_result ''0xff'', ex_result ''0xcd''])
       = tokenPairs_of [Str ''0xab'', Str ''0xCD''] [ex_result ''0xP1'', ex_result ''0xP2''] [''0xp1'', ''0xp2'']
         (Arr [ex_result ''0xAB'', ex_result ''0xee'']) (Arr [ex_result ''0xff'', ex_result ''0xcd''])
   \<and> tokenPairs_of [Str ''0xab'', Str ''0xCD''] [ex_result ''0xP1'', ex_result ''0xP2''] [''0xp1'', ''0xp2'']
         (Arr [ex_result ''0xAB'', ex_result ''0xee'']) (Arr [ex_result ''0xff'', ex_result ''0xcd''])
       = Inr [(''0xp1'', \<lparr>token0Address = Str ''0xab'', token1Address = Undef\<rparr>)]"
proof -
  have a: "map output_toLowerCase [ex_result ''0xAB'', ex_result ''0xee''] = map Inr [''0xab'', ''0xee'']"
    by code_simp
  have b: "map output_toLowerCase [ex_result ''0xff'', ex_result ''0xcd''] = map Inr [''0xff'', ''0xcd'']"
    by code_simp
  have c: "map output_toLowerCase [ex_result ''0xab'', ex_result ''0xEE''] = map Inr [''0xab'', ''0xee'']"
    by code_simp
  have d: "map output_toLowerCase [ex_result ''0xFF'', ex_result ''0xCd''] = map Inr [''0xff'', ''0xcd'']"
    by code_simp
  have e: "tokenPairs_of [Str ''0xab'', Str ''0xCD''] [ex_result ''0xP1'', ex_result ''0xP2''] [''0xp1'', ''0xp2'']
         (Arr [ex_result ''0xAB'', ex_result ''0xee'']) (Arr [ex_result ''0xff'', ex_result ''0xcd''])
       = Inr [(''0xp1'', \<lparr>token0Address = Str ''0xab'', token1Address = Undef\<rparr>)]"
    by code_simp
  from token_membership [OF a b, of "[Str ''0xab'', Str ''0xCD'']"
      "[ex_result ''0xP1'', ex_result ''0xP2'']" "[''0xp1'', ''0xp2'']"
      "[ex_result ''0xab'', ex_result ''0xEE'']" "[ex_result ''0xFF'', ex_result ''0xCd'']"] c d
  have "tokenPairs_of [Str ''0xab'', Str ''0xCD''] [ex_result ''0xP1'', ex_result ''0xP2''] [''0xp1'', ''0xp2'']
         (Arr [ex_result ''0xab'', ex_result ''0xEE'']) (Arr [ex_result ''0xFF'', ex_result ''0xCd''])
       = tokenPairs_of [Str ''0xab'', Str ''0xCD''] [ex_result ''0xP1'', ex_result ''0xP2''] [''0xp1'', ''0xp2'']
         (Arr [ex_result ''0xAB'', ex_result ''0xee'']) (Arr [ex_result ''0xff'', ex_result ''0xcd''])"
    and "tokenPairs_of (filter lower_case_entry [Str ''0xab'', Str ''0xCD''])
         [ex_result ''0xP1'', ex_result ''0xP2''] [''0xp1'', ''0xp2'']
         (Arr [ex_result ''0xAB'', ex_result ''0xee'']) (Arr [ex_result ''0xff'', ex_result ''0xcd''])
       = tokenPairs_of [Str ''0xab'', Str ''0xCD''] [ex_result ''0xP1'', ex_result ''0xP2''] [''0xp1'', ''0xp2'']
         (Arr [ex_result ''0xAB'', ex_result ''0xee'']) (Arr [ex_result ''0xff'', ex_result ''0xcd''])"
    by blast+
  with a b c d e show ?thesis by blast
qed

text \<open>
  Claim C5 at a pair whose two tokens are both supported.  The first loop stores
  \<^verbatim>\<open>token0Address\<close>; the second loop replaces the entry by one that holds only
  \<^verbatim>\<open>token1Address\<close>; a single balance call results.
\<close>

theorem both_tokens_supported_one_call:
  "add_token0Addresses [Str ''0xa0'', Str ''0xb1''] [''0xp1''] [Obj [(''output'', Str ''0xA0'')]] 0 []
       = Inr [(''0xp1'', \<lparr>token0Address = Str ''0xa0'', token1Address = Undef\<rparr>)]
   \<and> tokenPairs_of [Str ''0xa0'', Str ''0xb1''] [Obj [(''output'', Str ''0xP1'')]] [''0xp1'']
         (Arr [Obj [(''output'', Str ''0xA0'')]]) (Arr [Obj [(''output'', Str ''0xB1'')]])
       = Inr [(''0xp1'', \<lparr>token0Address = Undef, token1Address = Str ''0xb1''\<rparr>)]
   \<and> balanceCalls_of [(''0xp1'', \<lparr>token0Address = Undef, token1Address = Str ''0xb1''\<rparr>)]
       = [\<lparr>target = Str ''0xb1'', params = Str ''0xp1''\<rparr>]"
  by code_simp

text \<open>
  Claim C7 as stated fails: the allow-list keeps the casing it was supplied with, and
  neither a token that equals its entry nor one that differs from it only in letter case
  is retained when the entry has upper-case letters.
\<close>

theorem allow_list_case_counterexample:
  "supported_of (Arr [Obj [(''platforms'', Obj [(''polygon-pos'', Str ''0xAB'')])]]) = Inr [Str ''0xAB'']
   \<and> tokenPairs_of [Str ''0xAB''] [Obj [(''output'', Str ''0xP1'')]] [''0xp1'']
         (Arr [Obj [(''output'', Str ''0xab'')]]) (Arr [Obj [(''output'', Str ''0xAB'')]])
       = Inr []"
  by code_simp

end
